theory Spec2Isabelle
  imports Main "HOL-Library.Word"
begin

unbundle bit_operations_syntax

section \<open>Machine types and errors\<close>

text \<open>
  A field element (\<^verbatim>\<open>field::GF2E\<close>) wraps one \<^verbatim>\<open>uint64_t data\<close>; it is modelled by that
  64-bit word. The SSE register type \<^verbatim>\<open>__m128i\<close> is a 128-bit word.
\<close>

type_synonym u8 = "8 word"
type_synonym u64 = "64 word"
type_synonym m128i = "128 word"
type_synonym GF2E = u64

text \<open>
  Every failure of the code is a \<^verbatim>\<open>std::runtime_error\<close> told apart by its message. The
  constructors carry the names the specification gives them:
  \<^item> \<^verbatim>\<open>"invalid parameter set"\<close> is \<open>InvalidParameterSet\<close>;
  \<^item> \<^verbatim>\<open>"modulus for that specific lambda not implemented."\<close> is \<open>UnsupportedLambda\<close>;
  \<^item> \<^verbatim>\<open>"adding vectors of different sizes"\<close> and \<^verbatim>\<open>"invalid sizes for interpolation"\<close>
    are \<open>SizeMismatch\<close>.
\<close>

datatype error = InvalidParameterSet | UnsupportedLambda | SizeMismatch

section \<open>Carry-less multiplication\<close>

text \<open>
  The carry-less product of two bit patterns, by shift and XOR: bit \<open>i\<close> of \<open>a\<close> adds
  \<open>b\<close> shifted left by \<open>i\<close>. This is what the PCLMULQDQ instruction computes on two 64-bit
  operands.
\<close>

fun clmul_nat :: "nat \<Rightarrow> nat \<Rightarrow> nat" where
  "clmul_nat a b =
     (if a = 0 then 0 else (if odd a then b else 0) XOR 2 * clmul_nat (a div 2) b)"

declare clmul_nat.simps [simp del]

text \<open>
  The three intrinsics of \<^verbatim>\<open>field.cpp\<close>, on 128-bit registers with two 64-bit lanes.
  \<^verbatim>\<open>_mm_extract_epi64\<close> returns the lane as a signed 64-bit integer (\<^verbatim>\<open>long long\<close>): the model
  returns its bit pattern, and each use says how the pattern is read. Stored in a
  \<^verbatim>\<open>uint64_t\<close> or combined with one by \<^verbatim>\<open>&\<close>, it is the unsigned value of the same
  bits; shifted right as it comes, it is shifted arithmetically (\<open>signed_drop_bit\<close>), the
  sign bit filling the vacated positions.
\<close>

definition mm_set1_epi64x :: "u64 \<Rightarrow> m128i" where
  "mm_set1_epi64x a = push_bit 64 (ucast a) OR ucast a"

definition mm_extract_epi64 :: "m128i \<Rightarrow> nat \<Rightarrow> u64" where
  "mm_extract_epi64 v i = (if i = 0 then ucast v else ucast (drop_bit 64 v))"

definition mm_clmulepi64_si128 :: "m128i \<Rightarrow> m128i \<Rightarrow> nat \<Rightarrow> m128i" where
  "mm_clmulepi64_si128 x y imm =
     word_of_nat
       (clmul_nat (unat (mm_extract_epi64 x (if bit imm 0 then 1 else 0)))
                  (unat (mm_extract_epi64 y (if bit imm 4 then 1 else 0))))"

definition clmul :: "u64 \<Rightarrow> u64 \<Rightarrow> m128i" where
  "clmul a b = mm_clmulepi64_si128 (mm_set1_epi64x a) (mm_set1_epi64x b) 0"

section \<open>The three reduction routines\<close>

text \<open>
  \<^verbatim>\<open>reduce_GF2_32\<close> stores every extracted lane in a \<^verbatim>\<open>uint64_t\<close> before it shifts. In
  \<^verbatim>\<open>reduce_GF2_40\<close> and \<^verbatim>\<open>reduce_GF2_48\<close> the operand of the last shift is the value
  \<^verbatim>\<open>_mm_extract_epi64(T1, 0)\<close> itself (\<^verbatim>\<open>>>\<close> binds tighter than \<^verbatim>\<open>|\<close>), a signed integer,
  so that shift is arithmetic; the result is then converted to \<^verbatim>\<open>uint64_t\<close> for the \<^verbatim>\<open>|\<close>.
\<close>

definition P_GF2_32 :: u64 where
  "P_GF2_32 = push_bit 32 1 OR push_bit 7 1 OR push_bit 3 1 OR push_bit 2 1 OR push_bit 0 1"

definition P_GF2_40 :: u64 where
  "P_GF2_40 = push_bit 40 1 OR push_bit 5 1 OR push_bit 4 1 OR push_bit 3 1 OR push_bit 0 1"

definition P_GF2_48 :: u64 where
  "P_GF2_48 = push_bit 48 1 OR push_bit 5 1 OR push_bit 3 1 OR push_bit 2 1 OR push_bit 0 1"

definition reduce_GF2_32 :: "m128i \<Rightarrow> u64" where
  "reduce_GF2_32 v =
     (let P = P_GF2_32;
          mu = P;
          R = mm_extract_epi64 v 0;
          T1 = mm_extract_epi64 (clmul (drop_bit 32 R) mu) 0;
          T2 = mm_extract_epi64 (clmul (drop_bit 32 T1) P) 0
      in 0xFFFFFFFF AND (R XOR T2))"

definition reduce_GF2_40 :: "m128i \<Rightarrow> u64" where
  "reduce_GF2_40 v =
     (let P = P_GF2_40;
          mu = P;
          upper_mask = 0xFFFF;
          R = mm_extract_epi64 v 0;
          R_red = push_bit 24 (mm_extract_epi64 v 1 AND upper_mask) OR drop_bit 40 R;
          T1 = clmul R_red mu;
          T1_red = push_bit 24 (mm_extract_epi64 T1 1 AND upper_mask)
                     OR signed_drop_bit 40 (mm_extract_epi64 T1 0);
          T2 = mm_extract_epi64 (clmul T1_red P) 0
      in 0xFFFFFFFFFF AND (R XOR T2))"

definition reduce_GF2_48 :: "m128i \<Rightarrow> u64" where
  "reduce_GF2_48 v =
     (let P = P_GF2_48;
          mu = P;
          upper_mask = 0xFFFFFFFF;
          R = mm_extract_epi64 v 0;
          R_red = push_bit 16 (mm_extract_epi64 v 1 AND upper_mask) OR drop_bit 48 R;
          T1 = clmul R_red mu;
          T1_red = push_bit 16 (mm_extract_epi64 T1 1 AND upper_mask)
                     OR signed_drop_bit 48 (mm_extract_epi64 T1 0);
          T2 = mm_extract_epi64 (clmul T1_red P) 0
      in 0xFFFFFFFFFFFFFF AND (R XOR T2))"

section \<open>Field elements and the process-wide configuration\<close>

text \<open>
  \<^verbatim>\<open>GF2E::reduce\<close> is a \<^verbatim>\<open>std::function\<close> that only ever holds one of the three routines;
  \<^verbatim>\<open>GF2E::byte_size\<close> is a \<^verbatim>\<open>size_t\<close>. Both are static members, passed explicitly here.
\<close>

datatype reduce_fn = Reduce_GF2_32 | Reduce_GF2_40 | Reduce_GF2_48

fun apply_reduce :: "reduce_fn \<Rightarrow> m128i \<Rightarrow> u64" where
  "apply_reduce Reduce_GF2_32 v = reduce_GF2_32 v"
| "apply_reduce Reduce_GF2_40 v = reduce_GF2_40 v"
| "apply_reduce Reduce_GF2_48 v = reduce_GF2_48 v"

record gf2e_static =
  reduce :: reduce_fn
  byte_size :: nat

definition initial_static :: gf2e_static where
  "initial_static = \<lparr>reduce = Reduce_GF2_32, byte_size = 4\<rparr>"

definition GF2E_add :: "GF2E \<Rightarrow> GF2E \<Rightarrow> GF2E" where
  "GF2E_add a other = a XOR other"

definition GF2E_sub :: "GF2E \<Rightarrow> GF2E \<Rightarrow> GF2E" where
  "GF2E_sub a other = a XOR other"

definition GF2E_mul :: "gf2e_static \<Rightarrow> GF2E \<Rightarrow> GF2E \<Rightarrow> GF2E" where
  "GF2E_mul st a other = apply_reduce (reduce st) (clmul a other)"

definition GF2E_inverse :: "GF2E \<Rightarrow> GF2E" where
  "GF2E_inverse a = a"

text \<open>
  Modelled from the spec: \<^verbatim>\<open>GF2E::set_coeff\<close> is declared in \<^verbatim>\<open>field.h\<close>, which is not among
  the sources. The comments of \<^verbatim>\<open>init_extension_field\<close> give each generator as a sum of powers
  of \<open>y\<close>, one \<^verbatim>\<open>set_coeff(i)\<close> per power, so \<^verbatim>\<open>set_coeff(i)\<close> sets bit \<open>i\<close>.
\<close>

definition set_coeff :: "GF2E \<Rightarrow> nat \<Rightarrow> GF2E" where
  "set_coeff g idx = g OR push_bit idx 1"

section \<open>The lifting table\<close>

function lut_inner :: "GF2E \<Rightarrow> nat \<Rightarrow> nat \<Rightarrow> GF2E list \<Rightarrow> GF2E list" where
  "lut_inner pw start idx lut =
     (if idx < start
      then lut_inner pw start (Suc idx) (lut[start + idx := GF2E_add (lut ! idx) pw])
      else lut)"
  by pat_completeness auto
termination
  by (relation "measure (\<lambda>(pw, start, idx, lut). start - idx)") auto

declare lut_inner.simps [simp del]

function lut_outer :: "gf2e_static \<Rightarrow> GF2E \<Rightarrow> nat \<Rightarrow> GF2E \<Rightarrow> GF2E list \<Rightarrow> GF2E list" where
  "lut_outer st generator b pw lut =
     (if b < 8
      then lut_outer st generator (Suc b) (GF2E_mul st pw generator) (lut_inner pw (2 ^ b) 0 lut)
      else lut)"
  by pat_completeness auto
termination
  by (relation "measure (\<lambda>(st, generator, b, pw, lut). 8 - b)") auto

declare lut_outer.simps [simp del]

definition init_lifting_lut :: "gf2e_static \<Rightarrow> GF2E \<Rightarrow> GF2E list \<Rightarrow> GF2E list" where
  "init_lifting_lut st generator lut = lut_outer st generator 1 generator (lut[0 := 0, 1 := 1])"

definition lift_uint8_t :: "GF2E list \<Rightarrow> u8 \<Rightarrow> GF2E" where
  "lift_uint8_t lut v = lut ! unat v"

section \<open>Parameter sets\<close>

text \<open>
  Modelled from the spec: \<^verbatim>\<open>banquet_instances.h\<close> is not among the sources, so the two
  structs are read off the initialisers and their comments in \<^verbatim>\<open>banquet_instances.cpp\<close>
  (\<^verbatim>\<open>key_size, block_size, num_blocks, num_sboxes\<close> and
  \<^verbatim>\<open>AES_params, digest size, seed size, T, N, m1, m2, lambda\<close>, then the identifier). The
  enumeration \<^verbatim>\<open>banquet_params_t\<close> is an integer: \<^verbatim>\<open>PARAMETER_SET_INVALID\<close> is the
  reserved index 0, the named parameter sets follow in the order of the table, and
  \<^verbatim>\<open>PARAMETER_SET_MAX_INDEX\<close> is the number of entries the table is given, 13.
\<close>

record banquet_aes_t =
  key_size :: nat
  block_size :: nat
  num_blocks :: nat
  num_sboxes :: nat

type_synonym banquet_params_t = int

record banquet_instance_t =
  aes_params :: banquet_aes_t
  digest_size :: nat
  seed_size :: nat
  num_rounds :: nat
  num_MPC_parties :: nat
  m1 :: nat
  m2 :: nat
  lambda :: nat
  params :: banquet_params_t

definition PARAMETER_SET_INVALID :: banquet_params_t where "PARAMETER_SET_INVALID = 0"
definition Banquet_L1_Param1 :: banquet_params_t where "Banquet_L1_Param1 = 1"
definition Banquet_L1_Param2 :: banquet_params_t where "Banquet_L1_Param2 = 2"
definition Banquet_L1_Param3 :: banquet_params_t where "Banquet_L1_Param3 = 3"
definition Banquet_L1_Param4 :: banquet_params_t where "Banquet_L1_Param4 = 4"
definition Banquet_L1_Param5 :: banquet_params_t where "Banquet_L1_Param5 = 5"
definition Banquet_L1_Param6 :: banquet_params_t where "Banquet_L1_Param6 = 6"
definition Banquet_L1_Param7 :: banquet_params_t where "Banquet_L1_Param7 = 7"
definition Banquet_L1_Param8 :: banquet_params_t where "Banquet_L1_Param8 = 8"
definition Banquet_L1_Param9 :: banquet_params_t where "Banquet_L1_Param9 = 9"
definition Banquet_L1_Param10 :: banquet_params_t where "Banquet_L1_Param10 = 10"
definition Banquet_L3_Param1 :: banquet_params_t where "Banquet_L3_Param1 = 11"
definition Banquet_L5_Param1 :: banquet_params_t where "Banquet_L5_Param1 = 12"
definition PARAMETER_SET_MAX_INDEX :: banquet_params_t where "PARAMETER_SET_MAX_INDEX = 13"

definition AES128_PARAMS :: banquet_aes_t where
  "AES128_PARAMS = \<lparr>key_size = 16, block_size = 16, num_blocks = 1, num_sboxes = 200\<rparr>"

definition AES192_PARAMS :: banquet_aes_t where
  "AES192_PARAMS = \<lparr>key_size = 24, block_size = 16, num_blocks = 2, num_sboxes = 416\<rparr>"

definition AES256_PARAMS :: banquet_aes_t where
  "AES256_PARAMS = \<lparr>key_size = 32, block_size = 16, num_blocks = 2, num_sboxes = 500\<rparr>"

definition mk_instance ::
  "banquet_aes_t \<Rightarrow> nat \<Rightarrow> nat \<Rightarrow> nat \<Rightarrow> nat \<Rightarrow> nat \<Rightarrow> nat \<Rightarrow> nat \<Rightarrow> banquet_params_t
     \<Rightarrow> banquet_instance_t" where
  "mk_instance a d s t n x y l p =
     \<lparr>aes_params = a, digest_size = d, seed_size = s, num_rounds = t, num_MPC_parties = n,
      m1 = x, m2 = y, lambda = l, params = p\<rparr>"

definition instances :: "banquet_instance_t list" where
  "instances =
     [mk_instance \<lparr>key_size = 0, block_size = 0, num_blocks = 0, num_sboxes = 0\<rparr>
        0 0 0 0 0 0 0 PARAMETER_SET_INVALID,
      mk_instance AES128_PARAMS 32 16 31 64 10 20 4 Banquet_L1_Param1,
      mk_instance AES128_PARAMS 32 16 31 64 20 10 4 Banquet_L1_Param2,
      mk_instance AES128_PARAMS 32 16 29 64 10 20 5 Banquet_L1_Param3,
      mk_instance AES128_PARAMS 32 16 27 64 10 20 6 Banquet_L1_Param4,
      mk_instance AES128_PARAMS 32 16 28 128 10 20 4 Banquet_L1_Param5,
      mk_instance AES128_PARAMS 32 16 26 128 10 20 5 Banquet_L1_Param6,
      mk_instance AES128_PARAMS 32 16 24 128 10 20 6 Banquet_L1_Param7,
      mk_instance AES128_PARAMS 32 16 25 256 10 20 4 Banquet_L1_Param8,
      mk_instance AES128_PARAMS 32 16 23 256 10 20 5 Banquet_L1_Param9,
      mk_instance AES128_PARAMS 32 16 21 256 10 20 6 Banquet_L1_Param10,
      mk_instance AES192_PARAMS 48 24 38 64 16 26 4 Banquet_L3_Param1,
      mk_instance AES256_PARAMS 64 32 50 64 20 25 4 Banquet_L5_Param1]"

definition banquet_instance_get :: "banquet_params_t \<Rightarrow> error + banquet_instance_t" where
  "banquet_instance_get param =
     (if param \<le> PARAMETER_SET_INVALID \<or> param \<ge> PARAMETER_SET_MAX_INDEX
      then Inl InvalidParameterSet
      else Inr (instances ! nat param))"

section \<open>Configuring the field\<close>

text \<open>
  The state \<^verbatim>\<open>init_extension_field\<close> writes: the two static members of \<^verbatim>\<open>GF2E\<close> and the
  file-level array \<^verbatim>\<open>lifting_lut\<close> of 256 elements.
\<close>

record field_state =
  statics :: gf2e_static
  lifting_lut :: "GF2E list"

definition gen_GF2_32 :: GF2E where
  "gen_GF2_32 = foldl set_coeff 0 [30, 23, 21, 18, 14, 13, 11, 9, 7, 6, 5, 4, 3, 1]"

definition gen_GF2_40 :: GF2E where
  "gen_GF2_40 = foldl set_coeff 0 [31, 30, 27, 25, 22, 21, 20, 18, 15, 9, 6, 4, 2]"

definition gen_GF2_48 :: GF2E where
  "gen_GF2_48 = foldl set_coeff 0
     [45, 43, 40, 37, 36, 35, 34, 33, 31, 30, 29, 28, 24, 21, 20, 19, 16, 14, 13, 11, 10, 7, 3, 2]"

definition init_extension_field :: "banquet_instance_t \<Rightarrow> field_state \<Rightarrow> error + field_state" where
  "init_extension_field inst s =
     (if lambda inst = 4 then
        (let st = \<lparr>reduce = Reduce_GF2_32, byte_size = 4\<rparr>
         in Inr \<lparr>statics = st, lifting_lut = init_lifting_lut st gen_GF2_32 (lifting_lut s)\<rparr>)
      else if lambda inst = 5 then
        (let st = \<lparr>reduce = Reduce_GF2_40, byte_size = 5\<rparr>
         in Inr \<lparr>statics = st, lifting_lut = init_lifting_lut st gen_GF2_40 (lifting_lut s)\<rparr>)
      else if lambda inst = 6 then
        (let st = \<lparr>reduce = Reduce_GF2_48, byte_size = 6\<rparr>
         in Inr \<lparr>statics = st, lifting_lut = init_lifting_lut st gen_GF2_48 (lifting_lut s)\<rparr>)
      else Inl UnsupportedLambda)"

section \<open>Vectors of field elements\<close>

definition vec_add :: "GF2E list \<Rightarrow> GF2E list \<Rightarrow> error + GF2E list" where
  "vec_add lhs rhs =
     (if length lhs \<noteq> length rhs then Inl SizeMismatch
      else Inr (map2 GF2E_add lhs rhs))"

definition vec_add_assign :: "GF2E list \<Rightarrow> GF2E list \<Rightarrow> error + GF2E list" where
  "vec_add_assign lhs rhs =
     (if length lhs \<noteq> length rhs then Inl SizeMismatch
      else Inr (map2 GF2E_add lhs rhs))"

definition vec_scale :: "gf2e_static \<Rightarrow> GF2E list \<Rightarrow> GF2E \<Rightarrow> GF2E list" where
  "vec_scale st lhs rhs = map (\<lambda>c. GF2E_mul st c rhs) lhs"

definition dot_product :: "gf2e_static \<Rightarrow> GF2E list \<Rightarrow> GF2E list \<Rightarrow> error + GF2E" where
  "dot_product st lhs rhs =
     (if length lhs \<noteq> length rhs then Inl SizeMismatch
      else Inr (apply_reduce (reduce st)
                  (fold (\<lambda>(a, b) accum. accum XOR clmul a b) (zip lhs rhs) 0)))"

section \<open>Polynomials\<close>

fun bfr_inner :: "gf2e_static \<Rightarrow> GF2E \<Rightarrow> nat \<Rightarrow> GF2E list \<Rightarrow> GF2E list" where
  "bfr_inner st tmp 0 poly = poly"
| "bfr_inner st tmp (Suc j) poly =
     bfr_inner st tmp j
       (poly[Suc j := GF2E_add (GF2E_mul st (poly ! Suc j) tmp) (poly ! j)])"

function bfr_outer :: "gf2e_static \<Rightarrow> nat \<Rightarrow> nat \<Rightarrow> GF2E list \<Rightarrow> GF2E list" where
  "bfr_outer st len k poly =
     (if k < len then
        (let tmp = poly ! k;
             poly1 = poly[k := GF2E_add tmp (poly ! (k - 1))];
             poly2 = bfr_inner st tmp (k - 1) poly1;
             poly3 = poly2[0 := GF2E_mul st (poly2 ! 0) tmp]
         in bfr_outer st len (Suc k) poly3)
      else poly)"
  by pat_completeness auto
termination
  by (relation "measure (\<lambda>(st, len, k, poly). len - k)") auto

declare bfr_outer.simps [simp del]

definition build_from_roots :: "gf2e_static \<Rightarrow> GF2E list \<Rightarrow> GF2E list" where
  "build_from_roots st roots =
     (let len = length roots;
          poly = roots @ [0]
      in (bfr_outer st len 1 poly)[len := 1])"

text \<open>Horner evaluation, from the last coefficient down to the first.\<close>

definition field_eval :: "gf2e_static \<Rightarrow> GF2E list \<Rightarrow> GF2E \<Rightarrow> GF2E" where
  "field_eval st poly point =
     fold (\<lambda>c acc. GF2E_add (GF2E_mul st acc point) c) (rev poly) 0"

text \<open>
  The inner loop of \<^verbatim>\<open>precompute_lagrange_polynomials\<close> for one \<open>k\<close>: the denominator and the
  points other than the \<open>k\<close>-th.
\<close>

definition lagrange_inner :: "gf2e_static \<Rightarrow> GF2E list \<Rightarrow> nat \<Rightarrow> GF2E \<times> GF2E list" where
  "lagrange_inner st x_values k =
     fold (\<lambda>j (denominator, x_except_k).
             if k \<noteq> j
             then (GF2E_mul st denominator (GF2E_sub (x_values ! k) (x_values ! j)),
                   x_except_k @ [x_values ! j])
             else (denominator, x_except_k))
          [0..<length x_values] (1, [])"

text \<open>
  The inverse of the denominator is taken by NTL, through \<^verbatim>\<open>utils::custom_to_ntl\<close>, \<^verbatim>\<open>inv\<close> and
  \<^verbatim>\<open>utils::ntl_to_custom\<close>, none of which is among the sources: it is the parameter
  \<open>ntl_inv\<close>.
\<close>

definition precompute_lagrange_polynomials ::
  "gf2e_static \<Rightarrow> (GF2E \<Rightarrow> GF2E) \<Rightarrow> GF2E list \<Rightarrow> GF2E list list" where
  "precompute_lagrange_polynomials st ntl_inv x_values =
     map (\<lambda>k. case lagrange_inner st x_values k of
                 (denominator, x_except_k) \<Rightarrow>
                   vec_scale st (build_from_roots st x_except_k) (ntl_inv denominator))
         [0..<length x_values]"

function interp_loop ::
  "gf2e_static \<Rightarrow> GF2E list list \<Rightarrow> GF2E list \<Rightarrow> nat \<Rightarrow> GF2E list \<Rightarrow> error + GF2E list" where
  "interp_loop st pre y_values k res =
     (if k < length y_values then
        (case vec_add_assign res (vec_scale st (pre ! k) (y_values ! k)) of
           Inl e \<Rightarrow> Inl e
         | Inr res' \<Rightarrow> interp_loop st pre y_values (Suc k) res')
      else Inr res)"
  by pat_completeness auto
termination
  by (relation "measure (\<lambda>(st, pre, y_values, k, res). length y_values - k)") auto

declare interp_loop.simps [simp del]

definition interpolate_with_precomputation ::
  "gf2e_static \<Rightarrow> GF2E list list \<Rightarrow> GF2E list \<Rightarrow> error + GF2E list" where
  "interpolate_with_precomputation st pre y_values =
     (if length pre \<noteq> length y_values \<or> y_values = [] then Inl SizeMismatch
      else interp_loop st pre y_values 0 (replicate (length (pre ! 0)) 0))"

section \<open>Polynomials over GF(2) as bit patterns\<close>

text \<open>
  A natural number stands for the polynomial over GF(2) whose coefficient of \<open>x\<^sup>i\<close> is its
  bit \<open>i\<close>: XOR is the sum and \<open>clmul_nat\<close> the product.
\<close>

lemma xor_nat_less_exp: "x < 2 ^ n \<Longrightarrow> y < 2 ^ n \<Longrightarrow> x XOR y < (2::nat) ^ n"
  by (simp flip: take_bit_nat_eq_self_iff)

lemma one_xor_double: "Suc 0 XOR 2 * k = Suc (2 * k)"
  using one_xor_eq [of "2 * k"] by simp

lemma bit0_decomp: "(if odd a then Suc 0 else 0) XOR 2 * (a div 2) = a"
proof (cases "odd a")
  case True
  then obtain k where "a = 2 * k + 1" by (auto elim: oddE)
  then show ?thesis by (simp add: one_xor_double)
next
  case False
  then show ?thesis by simp
qed

lemma xor_cancel_left: "x XOR (x XOR y) = (y::nat)"
  by (simp flip: xor.assoc)

lemma double_xor: "2 * (x XOR y) = 2 * x XOR 2 * (y::nat)"
  using push_bit_xor [of 1 x y] by (simp add: push_bit_eq_mult mult.commute)

lemma half_xor: "(x XOR y) div 2 = x div 2 XOR (y::nat) div 2"
  using drop_bit_xor [of 1 x y] by (simp add: drop_bit_eq_div)

lemma clmul_nat_0 [simp]: "clmul_nat 0 b = 0"
  by (simp add: clmul_nat.simps)

lemma clmul_nat_rec: "clmul_nat a b = (if odd a then b else 0) XOR 2 * clmul_nat (a div 2) b"
  by (cases "a = 0") (simp_all add: clmul_nat.simps [of a])

lemma clmul_nat_0_right [simp]: "clmul_nat a 0 = 0"
  by (induction a "0::nat" rule: clmul_nat.induct) (simp add: clmul_nat.simps)

lemma clmul_nat_1 [simp]: "clmul_nat (Suc 0) b = b"
  by (simp add: clmul_nat.simps)

text \<open>The product of two numerals, one bit of the left operand at a time.\<close>

lemma clmul_nat_numeral:
  "clmul_nat (numeral Num.One) b = b"
  "clmul_nat (numeral (Num.Bit0 n)) b = 2 * clmul_nat (numeral n) b"
  "clmul_nat (numeral (Num.Bit1 n)) b = b XOR 2 * clmul_nat (numeral n) b"
proof -
  show "clmul_nat (numeral Num.One) b = b" by simp
  show "clmul_nat (numeral (Num.Bit0 n)) b = 2 * clmul_nat (numeral n) b"
    by (subst clmul_nat_rec) simp
  show "clmul_nat (numeral (Num.Bit1 n)) b = b XOR 2 * clmul_nat (numeral n) b"
    by (subst clmul_nat_rec) simp
qed

lemma clmul_nat_xor_right: "clmul_nat a (b XOR c) = clmul_nat a b XOR clmul_nat a c"
proof (induction a b rule: clmul_nat.induct)
  case (1 a b)
  show ?case
  proof (cases "a = 0")
    case True
    then show ?thesis by simp
  next
    case False
    then have IH: "clmul_nat (a div 2) (b XOR c) = clmul_nat (a div 2) b XOR clmul_nat (a div 2) c"
      by (rule 1)
    show ?thesis
      by (subst (1 2 3) clmul_nat_rec) (simp add: IH double_xor ac_simps)
  qed
qed

lemma clmul_nat_xor_left: "clmul_nat (a XOR c) b = clmul_nat a b XOR clmul_nat c b"
proof (induction a b arbitrary: c rule: clmul_nat.induct)
  case (1 a b)
  show ?case
  proof (cases "a = 0")
    case True
    then show ?thesis by simp
  next
    case False
    then have IH: "clmul_nat (a div 2 XOR c div 2) b = clmul_nat (a div 2) b XOR clmul_nat (c div 2) b"
      by (rule 1)
    show ?thesis
      by (subst (1 2 3) clmul_nat_rec) (simp add: IH double_xor half_xor even_xor_iff xor_cancel_left ac_simps)
  qed
qed

lemma clmul_nat_double_left: "clmul_nat (2 * a) b = 2 * clmul_nat a b"
  by (subst clmul_nat_rec) simp

lemma clmul_nat_double_right: "clmul_nat a (2 * b) = 2 * clmul_nat a b"
proof (induction a b rule: clmul_nat.induct)
  case (1 a b)
  show ?case
  proof (cases "a = 0")
    case True
    then show ?thesis by simp
  next
    case False
    then have IH: "clmul_nat (a div 2) (2 * b) = 2 * clmul_nat (a div 2) b"
      by (rule 1)
    show ?thesis
      by (subst (1 2) clmul_nat_rec) (simp add: IH double_xor)
  qed
qed

lemma clmul_nat_push_bit_left: "clmul_nat (push_bit k a) b = push_bit k (clmul_nat a b)"
proof (induction k arbitrary: a)
  case 0
  show ?case by simp
next
  case (Suc k)
  have "clmul_nat (push_bit (Suc k) a) b = clmul_nat (push_bit k (2 * a)) b"
    by (simp add: mult.commute)
  also have "\<dots> = push_bit k (clmul_nat (2 * a) b)"
    by (rule Suc)
  also have "\<dots> = push_bit k (2 * clmul_nat a b)"
    by (simp only: clmul_nat_double_left)
  also have "\<dots> = push_bit (Suc k) (clmul_nat a b)"
    by (simp add: mult.commute)
  finally show ?case .
qed

lemma clmul_nat_push_bit_right: "clmul_nat a (push_bit k b) = push_bit k (clmul_nat a b)"
proof (induction k arbitrary: b)
  case 0
  show ?case by simp
next
  case (Suc k)
  have "clmul_nat a (push_bit (Suc k) b) = clmul_nat a (push_bit k (2 * b))"
    by (simp add: mult.commute)
  also have "\<dots> = push_bit k (clmul_nat a (2 * b))"
    by (rule Suc)
  also have "\<dots> = push_bit k (2 * clmul_nat a b)"
    by (simp only: clmul_nat_double_right)
  also have "\<dots> = push_bit (Suc k) (clmul_nat a b)"
    by (simp add: mult.commute)
  finally show ?case .
qed

lemma clmul_nat_1_right [simp]: "clmul_nat a (Suc 0) = a"
proof (induction a "Suc 0" rule: clmul_nat.induct)
  case (1 a)
  show ?case
  proof (cases "a = 0")
    case True
    then show ?thesis by simp
  next
    case False
    then have IH: "clmul_nat (a div 2) (Suc 0) = a div 2"
      by (rule 1)
    have "clmul_nat a (Suc 0) = (if odd a then Suc 0 else 0) XOR 2 * (a div 2)"
      by (subst clmul_nat_rec) (simp only: IH)
    then show ?thesis
      by (simp only: bit0_decomp)
  qed
qed

lemma clmul_nat_rec_right:
  "clmul_nat a b = (if odd b then a else 0) XOR 2 * clmul_nat a (b div 2)"
proof -
  have "clmul_nat a b = clmul_nat a ((if odd b then Suc 0 else 0) XOR 2 * (b div 2))"
    by (simp only: bit0_decomp)
  also have "\<dots> = clmul_nat a (if odd b then Suc 0 else 0) XOR clmul_nat a (2 * (b div 2))"
    by (rule clmul_nat_xor_right)
  also have "\<dots> = (if odd b then a else 0) XOR 2 * clmul_nat a (b div 2)"
    by (simp add: clmul_nat_double_right)
  finally show ?thesis .
qed

lemma clmul_nat_commute: "clmul_nat a b = clmul_nat b a"
proof (induction a b rule: clmul_nat.induct)
  case (1 a b)
  show ?case
  proof (cases "a = 0")
    case True
    then show ?thesis by simp
  next
    case False
    then have IH: "clmul_nat (a div 2) b = clmul_nat b (a div 2)"
      by (rule 1)
    have "clmul_nat a b = (if odd a then b else 0) XOR 2 * clmul_nat b (a div 2)"
      by (subst clmul_nat_rec) (simp only: IH)
    also have "\<dots> = clmul_nat b a"
      by (rule clmul_nat_rec_right [symmetric])
    finally show ?thesis .
  qed
qed

lemma clmul_nat_assoc: "clmul_nat (clmul_nat a b) c = clmul_nat a (clmul_nat b c)"
proof (induction a b rule: clmul_nat.induct)
  case (1 a b)
  show ?case
  proof (cases "a = 0")
    case True
    then show ?thesis by simp
  next
    case False
    then have IH: "clmul_nat (clmul_nat (a div 2) b) c = clmul_nat (a div 2) (clmul_nat b c)"
      by (rule 1)
    have "clmul_nat (clmul_nat a b) c
        = clmul_nat ((if odd a then b else 0) XOR 2 * clmul_nat (a div 2) b) c"
      by (subst clmul_nat_rec) (rule refl)
    also have "\<dots> = (if odd a then clmul_nat b c else 0) XOR 2 * clmul_nat (clmul_nat (a div 2) b) c"
      by (simp add: clmul_nat_xor_left clmul_nat_double_left)
    also have "\<dots> = clmul_nat a (clmul_nat b c)"
      by (subst (2) clmul_nat_rec) (simp only: IH)
    finally show ?thesis .
  qed
qed

lemma clmul_nat_less_exp:
  "a < 2 ^ m \<Longrightarrow> b < 2 ^ n \<Longrightarrow> clmul_nat a b < 2 ^ (m + n - 1)"
proof (induction m arbitrary: a)
  case 0
  then show ?case by simp
next
  case (Suc m)
  have half: "a div 2 < 2 ^ m"
    using Suc.prems(1) by simp
  show ?case
  proof (cases "m = 0")
    case True
    with half have "a div 2 = 0" by simp
    then have "clmul_nat a b = (if odd a then b else 0)"
      by (subst clmul_nat_rec) simp
    with Suc.prems(2) True show ?thesis by simp
  next
    case False
    have "clmul_nat (a div 2) b < 2 ^ (m + n - 1)"
      using half Suc.prems(2) by (rule Suc.IH)
    then have "2 * clmul_nat (a div 2) b < 2 ^ (Suc m + n - 1)"
      using False by (cases m) simp_all
    moreover have "(if odd a then b else 0) < 2 ^ (Suc m + n - 1)"
    proof -
      have "b < 2 ^ (Suc m + n - 1)"
        by (rule less_le_trans [OF Suc.prems(2)]) simp
      then show ?thesis by simp
    qed
    ultimately show ?thesis
      by (subst clmul_nat_rec) (rule xor_nat_less_exp)
  qed
qed

subsection \<open>The remainder of polynomial division\<close>

fun bit_length :: "nat \<Rightarrow> nat" where
  "bit_length n = (if n = 0 then 0 else Suc (bit_length (n div 2)))"

declare bit_length.simps [simp del]

lemma bit_length_le_iff: "bit_length x \<le> n \<longleftrightarrow> x < 2 ^ n"
proof (induction x arbitrary: n rule: bit_length.induct)
  case (1 x)
  show ?case
  proof (cases "x = 0")
    case True
    then show ?thesis by (simp add: bit_length.simps)
  next
    case False
    then have IH: "\<And>m. bit_length (x div 2) \<le> m \<longleftrightarrow> x div 2 < 2 ^ m"
      by (rule 1)
    show ?thesis
    proof (cases n)
      case 0
      with False show ?thesis by (simp add: bit_length.simps [of x])
    next
      case (Suc m)
      have "x div 2 < 2 ^ m \<longleftrightarrow> x < 2 ^ Suc m"
        by auto
      with False Suc IH [of m] show ?thesis
        by (simp add: bit_length.simps [of x])
    qed
  qed
qed

lemma bit_length_eq_SucI:
  assumes "2 ^ n \<le> x" and "x < 2 ^ Suc n"
  shows "bit_length x = Suc n"
proof -
  from assms(2) have "bit_length x \<le> Suc n" by (simp only: bit_length_le_iff)
  moreover from assms(1) have "\<not> bit_length x \<le> n" by (simp add: bit_length_le_iff)
  ultimately show ?thesis by linarith
qed

lemma less_exp_bit_length: "x < 2 ^ bit_length x"
  using bit_length_le_iff [of x "bit_length x"] by simp

lemma bit_length_pos_ge: "x \<noteq> 0 \<Longrightarrow> 2 ^ (bit_length x - 1) \<le> x"
  using bit_length_le_iff [of x "bit_length x - 1"] by (cases "bit_length x") (auto simp: bit_length.simps [of x])

lemma top_bit_set:
  assumes "2 ^ n \<le> x" "x < 2 ^ Suc n"
  shows "bit (x::nat) n"
proof -
  have "x div 2 ^ n = 1"
    by (rule div_nat_eqI) (use assms in simp_all)
  then show ?thesis by (simp add: bit_iff_odd)
qed

lemma less_exp_if_top_clear:
  assumes "x < 2 ^ Suc n" "\<not> bit (x::nat) n"
  shows "x < 2 ^ n"
proof -
  have "x = take_bit (Suc n) x"
    using assms(1) by (simp only: take_bit_nat_eq_self)
  also have "\<dots> = take_bit n x"
    using assms(2) by (simp add: take_bit_Suc_from_most)
  finally have "x = take_bit n x" .
  then show ?thesis
    by (simp only: take_bit_nat_eq_self_iff [symmetric])
qed

lemma top_bits_cancel:
  assumes "2 ^ n \<le> x" "x < 2 ^ Suc n" "2 ^ n \<le> y" "y < 2 ^ Suc n"
  shows "x XOR y < (2::nat) ^ n"
proof (rule less_exp_if_top_clear)
  show "x XOR y < 2 ^ Suc n"
    using assms(2,4) by (rule xor_nat_less_exp)
  show "\<not> bit (x XOR y) n"
    using top_bit_set [OF assms(1,2)] top_bit_set [OF assms(3,4)] by (simp add: bit_xor_iff)
qed

lemma push_bit_bounds:
  assumes "p \<noteq> 0" "bit_length p \<le> bit_length a"
  shows "2 ^ (bit_length a - 1) \<le> push_bit (bit_length a - bit_length p) p"
    and "push_bit (bit_length a - bit_length p) p < 2 ^ Suc (bit_length a - 1)"
proof -
  have "bit_length p \<noteq> 0"
    using assms(1) by (simp add: bit_length.simps [of p])
  then have e: "bit_length a - 1 = (bit_length a - bit_length p) + (bit_length p - 1)"
    and e': "Suc (bit_length a - 1) = (bit_length a - bit_length p) + bit_length p"
    using assms(2) by simp_all
  have "2 ^ (bit_length p - 1) \<le> p"
    using assms(1) by (rule bit_length_pos_ge)
  then show "2 ^ (bit_length a - 1) \<le> push_bit (bit_length a - bit_length p) p"
    unfolding e by (simp add: push_bit_eq_mult power_add)
  have "p < 2 ^ bit_length p"
    by (rule less_exp_bit_length)
  then show "push_bit (bit_length a - bit_length p) p < 2 ^ Suc (bit_length a - 1)"
    unfolding e' by (simp add: push_bit_eq_mult power_add)
qed

lemma gf2_mod_decreases:
  assumes "p \<noteq> 0" "bit_length p \<le> bit_length a"
  shows "a XOR push_bit (bit_length a - bit_length p) p < a"
proof -
  have "bit_length p \<noteq> 0"
    using assms(1) by (simp add: bit_length.simps [of p])
  then have a0: "a \<noteq> 0"
    using assms(2) by (cases "a = 0") (simp_all add: bit_length.simps [of 0])
  have "a XOR push_bit (bit_length a - bit_length p) p < 2 ^ (bit_length a - 1)"
  proof (rule top_bits_cancel)
    show "2 ^ (bit_length a - 1) \<le> a" using a0 by (rule bit_length_pos_ge)
    show "a < 2 ^ Suc (bit_length a - 1)"
      using less_exp_bit_length [of a] a0 by (simp add: bit_length.simps [of a])
  qed (rule push_bit_bounds [OF assms])+
  also have "\<dots> \<le> a" using a0 by (rule bit_length_pos_ge)
  finally show ?thesis .
qed

function gf2_mod :: "nat \<Rightarrow> nat \<Rightarrow> nat" where
  "gf2_mod a p =
     (if p = 0 \<or> bit_length a < bit_length p then a
      else gf2_mod (a XOR push_bit (bit_length a - bit_length p) p) p)"
  by pat_completeness auto
termination
  by (relation "measure fst") (simp_all add: gf2_mod_decreases)

declare gf2_mod.simps [simp del]



lemma gf2_mod_small: "a < 2 ^ d \<Longrightarrow> 2 ^ d \<le> p \<Longrightarrow> gf2_mod a p = a"
proof -
  assume a: "a < 2 ^ d" and p: "2 ^ d \<le> p"
  from a have "bit_length a \<le> d" by (simp only: bit_length_le_iff)
  moreover from p have "\<not> bit_length p \<le> d" by (simp add: bit_length_le_iff)
  ultimately have "bit_length a < bit_length p" by linarith
  then show ?thesis by (simp add: gf2_mod.simps [of a])
qed

lemma clmul_nat_exp_left: "clmul_nat (2 ^ k) b = push_bit k b"
  using clmul_nat_push_bit_left [of k "Suc 0" b] by simp

lemma exp_xor_take_bit: "2 ^ k + take_bit k q = 2 ^ k XOR take_bit k (q::nat)"
proof (rule disjunctive_add_eq_xor)
  show "2 ^ k AND take_bit k q = 0"
    by (rule bit_eqI) (auto simp add: bit_simps)
qed

lemma not_bit_if_less: "x < 2 ^ n \<Longrightarrow> \<not> bit (x::nat) n"
  by (simp add: bit_iff_odd)

lemma gf2_mod_clmul_xor:
  assumes p: "2 ^ d \<le> p" "p < 2 ^ Suc d" and r: "r < 2 ^ d"
  shows "q < 2 ^ k \<Longrightarrow> gf2_mod (clmul_nat q p XOR r) p = r"
proof (induction k arbitrary: q)
  case 0
  then have "q = 0" by simp
  with r p(1) show ?case by (simp add: gf2_mod_small)
next
  case (Suc k)
  show ?case
  proof (cases "bit q k")
    case False
    with Suc.prems have "q < 2 ^ k" by (simp add: less_exp_if_top_clear)
    then show ?thesis by (rule Suc.IH)
  next
    case True
    define q' where "q' = take_bit k q"
    have q': "q' < 2 ^ k" by (simp add: q'_def)
    have "q = take_bit (Suc k) q"
      using Suc.prems by (simp only: take_bit_nat_eq_self)
    also have "\<dots> = 2 ^ k XOR q'"
      using True by (simp add: take_bit_Suc_from_most q'_def exp_xor_take_bit)
    finally have q: "q = 2 ^ k XOR q'" .
    define a where "a = clmul_nat q p XOR r"
    define low where "low = clmul_nat q' p XOR r"
    have a: "a = push_bit k p XOR low"
      by (simp add: a_def low_def clmul_nat_xor_left clmul_nat_exp_left xor.assoc q)
    have "clmul_nat q' p < 2 ^ (k + Suc d - 1)"
      using q' p(2) by (rule clmul_nat_less_exp)
    moreover have "r < 2 ^ (k + d)"
      by (rule less_le_trans [OF r]) simp
    ultimately have low: "low < 2 ^ (k + d)"
      by (simp add: low_def xor_nat_less_exp)
    have top1: "2 ^ (k + d) \<le> push_bit k p"
      using p(1) by (simp add: push_bit_eq_mult power_add)
    have top2: "push_bit k p < 2 ^ Suc (k + d)"
      using p(2) by (simp add: push_bit_eq_mult power_add)
    have "bit a (k + d)"
      using top_bit_set [OF top1 top2] not_bit_if_less [OF low] by (simp add: a bit_xor_iff)
    then have "2 ^ (k + d) \<le> a"
      using not_bit_if_less [of a "k + d"] by (meson not_less)
    moreover have "a < 2 ^ Suc (k + d)"
      unfolding a by (rule xor_nat_less_exp [OF top2]) (rule less_trans [OF low], simp)
    ultimately have bla: "bit_length a = Suc (k + d)"
      by (rule bit_length_eq_SucI)
    have blp: "bit_length p = Suc d"
      using p by (rule bit_length_eq_SucI)
    have "(0::nat) < 2 ^ d" by simp
    then have "0 < p" using p(1) by (rule less_le_trans)
    then have p0: "p \<noteq> 0" by simp
    have "gf2_mod a p = gf2_mod (a XOR push_bit k p) p"
      by (subst gf2_mod.simps) (simp add: bla blp p0)
    also have "a XOR push_bit k p = low"
      by (simp add: a xor.commute [of _ "push_bit k p"] xor_cancel_left)
    also have "gf2_mod low p = r"
      unfolding low_def using q' by (rule Suc.IH)
    finally show ?thesis by (simp only: a_def)
  qed
qed

subsection \<open>The two-step fold on bit patterns\<close>

definition barrett_nat :: "nat \<Rightarrow> nat \<Rightarrow> nat \<Rightarrow> nat" where
  "barrett_nat n P A = A XOR clmul_nat (drop_bit n (clmul_nat (drop_bit n A) P)) P"

lemma drop_bit_nat_less: "x < 2 ^ (n + k) \<Longrightarrow> drop_bit n x < (2::nat) ^ k"
  by (simp add: drop_bit_eq_div power_add less_mult_imp_div_less mult.commute)

lemma drop_bit_nat_zero: "x < 2 ^ n \<Longrightarrow> drop_bit n (x::nat) = 0"
  by (simp add: drop_bit_eq_div)

lemma less_exp_if_drop_bit_zero: "drop_bit n (x::nat) = 0 \<Longrightarrow> x < 2 ^ n"
  by (simp add: drop_bit_eq_div div_eq_0_iff)

lemma drop_bit_push_bit_same: "drop_bit n (push_bit n (x::nat)) = x"
  by (simp add: drop_bit_push_bit)

lemma exp_xor_small: "p < 2 ^ n \<Longrightarrow> 2 ^ n XOR p = 2 ^ n + (p::nat)"
  using exp_xor_take_bit [of n p] by (simp add: take_bit_nat_eq_self)

lemma clmul_nat_modulus: "clmul_nat x (2 ^ n XOR p) = push_bit n x XOR clmul_nat x p"
  by (simp add: clmul_nat_xor_right clmul_nat_commute [of x "2 ^ n"] clmul_nat_exp_left)

lemma barrett_quotient:
  assumes "p < 2 ^ k" "2 * k \<le> n" "H < 2 ^ n"
  defines "P \<equiv> 2 ^ n XOR p"
  defines "q \<equiv> drop_bit n (clmul_nat H P)"
  shows "drop_bit n (clmul_nat q P) = H" and "q < 2 ^ n"
proof -
  define H' where "H' = drop_bit n (clmul_nat H p)"
  have "clmul_nat H p < 2 ^ (n + k - 1)"
    using assms(3,1) by (rule clmul_nat_less_exp)
  then have "clmul_nat H p < 2 ^ (n + k)"
    by (rule less_le_trans) simp
  then have H': "H' < 2 ^ k"
    unfolding H'_def by (rule drop_bit_nat_less)
  have q: "q = H XOR H'"
    by (simp add: q_def P_def H'_def clmul_nat_modulus drop_bit_push_bit_same)
  have "k \<le> n" using assms(2) by simp
  then have "H' < 2 ^ n"
    using H' by (meson less_le_trans power_increasing one_le_numeral)
  with assms(3) show "q < 2 ^ n"
    unfolding q by (simp add: xor_nat_less_exp)
  have "clmul_nat H' p < 2 ^ (k + k - 1)"
    using H' assms(1) by (rule clmul_nat_less_exp)
  then have "clmul_nat H' p < 2 ^ n"
    by (rule less_le_trans) (use assms(2) in simp)
  then have z: "drop_bit n (clmul_nat H' p) = 0"
    by (rule drop_bit_nat_zero)
  have "drop_bit n (clmul_nat q P) = q XOR drop_bit n (clmul_nat q p)"
    by (simp add: P_def clmul_nat_modulus drop_bit_push_bit_same)
  also have "\<dots> = (H XOR H') XOR (H' XOR drop_bit n (clmul_nat H' p))"
    by (simp add: q clmul_nat_xor_left H'_def)
  also have "\<dots> = H"
    by (simp add: z xor.assoc)
  finally show "drop_bit n (clmul_nat q P) = H" .
qed

lemma barrett_nat_less:
  assumes "p < 2 ^ k" "2 * k \<le> n" "A < 2 ^ (n + n)"
  shows "barrett_nat n (2 ^ n XOR p) A < 2 ^ n"
proof (rule less_exp_if_drop_bit_zero)
  have H: "drop_bit n A < 2 ^ n"
    using assms(3) by (rule drop_bit_nat_less)
  show "drop_bit n (barrett_nat n (2 ^ n XOR p) A) = 0"
    by (simp add: barrett_nat_def barrett_quotient(1) [OF assms(1,2) H])
qed

lemma barrett_nat_gf2_mod:
  assumes "p < 2 ^ k" "2 * k \<le> n" "A < 2 ^ (n + n)"
  shows "barrett_nat n (2 ^ n XOR p) A = gf2_mod A (2 ^ n XOR p)"
proof -
  define P where "P = 2 ^ n XOR p"
  define q where "q = drop_bit n (clmul_nat (drop_bit n A) P)"
  define r where "r = barrett_nat n P A"
  have r: "r < 2 ^ n"
    unfolding r_def P_def using assms by (rule barrett_nat_less)
  have A: "A = clmul_nat q P XOR r"
    by (simp add: r_def barrett_nat_def q_def xor.commute [of A] xor_cancel_left)
  have "k \<le> n" using assms(2) by simp
  then have pn: "p < 2 ^ n"
    using assms(1) by (meson less_le_trans power_increasing one_le_numeral)
  have P1: "2 ^ n \<le> P"
    unfolding P_def using pn by (simp add: exp_xor_small)
  have P2: "P < 2 ^ Suc n"
    unfolding P_def using pn by (simp add: exp_xor_small)
  have "gf2_mod (clmul_nat q P XOR r) P = r"
    using P1 P2 r less_exp_bit_length [of q] by (rule gf2_mod_clmul_xor)
  then have "gf2_mod A P = r"
    by (simp only: A [symmetric])
  then show ?thesis
    by (simp only: r_def P_def)
qed

section \<open>The intrinsics and the reduction routines on words\<close>

lemma set1_low: "mm_extract_epi64 (mm_set1_epi64x a) 0 = a"
  unfolding mm_extract_epi64_def mm_set1_epi64x_def
  by (rule bit_word_eqI) (auto simp add: bit_simps)

lemma clmul_eq: "clmul a b = word_of_nat (clmul_nat (unat a) (unat b))"
  by (simp add: clmul_def mm_clmulepi64_si128_def set1_low)

lemma unat_clmul: "unat (clmul a b) = clmul_nat (unat a) (unat b)"
proof -
  have "unat a < 2 ^ 64" "unat b < 2 ^ 64"
    using unsigned_less [of a, where 'a = nat] unsigned_less [of b, where 'a = nat] by simp_all
  then have "clmul_nat (unat a) (unat b) < 2 ^ (64 + 64 - 1)"
    by (rule clmul_nat_less_exp)
  then have "clmul_nat (unat a) (unat b) < 2 ^ 128"
    by (rule less_le_trans) simp
  then show ?thesis
    by (simp add: clmul_eq unat_of_nat take_bit_nat_eq_self flip: take_bit_eq_mod)
qed

lemma mask16: "(0xFFFF :: u64) = mask 16" by (simp add: mask_eq_exp_minus_1)
lemma mask32: "(0xFFFFFFFF :: u64) = mask 32" by (simp add: mask_eq_exp_minus_1)
lemma mask40: "(0xFFFFFFFFFF :: u64) = mask 40" by (simp add: mask_eq_exp_minus_1)
lemma mask56: "(0xFFFFFFFFFFFFFF :: u64) = mask 56" by (simp add: mask_eq_exp_minus_1)

lemma R_red_40: "push_bit 24 (mm_extract_epi64 v 1 AND 0xFFFF) OR drop_bit 40 (mm_extract_epi64 v 0)
   = ucast (take_bit 40 (drop_bit 40 v))"
  unfolding mm_extract_epi64_def mask16
  by (rule bit_word_eqI) (auto simp add: bit_simps)

lemma R_red_48: "push_bit 16 (mm_extract_epi64 v 1 AND 0xFFFFFFFF) OR drop_bit 48 (mm_extract_epi64 v 0)
   = ucast (take_bit 48 (drop_bit 48 v))"
  unfolding mm_extract_epi64_def mask32
  by (rule bit_word_eqI) (auto simp add: bit_simps)

lemma clmul_xor_left: "clmul (a XOR b) c = clmul a c XOR clmul b c"
  by (simp add: clmul_eq unsigned_xor_eq clmul_nat_xor_left of_nat_xor_eq)

lemma clmul_xor_right: "clmul a (b XOR c) = clmul a b XOR clmul a c"
  by (simp add: clmul_eq unsigned_xor_eq clmul_nat_xor_right of_nat_xor_eq)

lemma clmul_commute: "clmul a b = clmul b a"
  by (simp add: clmul_eq clmul_nat_commute)

lemma clmul_zero [simp]: "clmul 0 b = 0" "clmul a 0 = 0"
  by (simp_all add: clmul_eq)

lemma extract_xor: "mm_extract_epi64 (x XOR y) i = mm_extract_epi64 x i XOR mm_extract_epi64 y i"
  by (simp add: mm_extract_epi64_def unsigned_xor_eq)

lemma reduce_GF2_32_xor: "reduce_GF2_32 (x XOR y) = reduce_GF2_32 x XOR reduce_GF2_32 y"
  by (simp add: reduce_GF2_32_def Let_def extract_xor clmul_xor_left bit.conj_xor_distrib bit.conj_xor_distrib2 xor.assoc xor.left_commute)

definition P32 :: nat where "P32 = 2 ^ 32 + 2 ^ 7 + 2 ^ 3 + 2 ^ 2 + 1"
definition P40 :: nat where "P40 = 2 ^ 40 + 2 ^ 5 + 2 ^ 4 + 2 ^ 3 + 1"
definition P48 :: nat where "P48 = 2 ^ 48 + 2 ^ 5 + 2 ^ 3 + 2 ^ 2 + 1"

lemma unat_P_GF2_32: "unat P_GF2_32 = P32" by (simp add: P32_def P_GF2_32_def)
lemma unat_P_GF2_40: "unat P_GF2_40 = P40" by (simp add: P40_def P_GF2_40_def)
lemma unat_P_GF2_48: "unat P_GF2_48 = P48" by (simp add: P48_def P_GF2_48_def)

lemma P32_split: "P32 = 2 ^ 32 XOR 141" by (simp add: P32_def)
lemma P40_split: "P40 = 2 ^ 40 XOR 57" by (simp add: P40_def)
lemma P48_split: "P48 = 2 ^ 48 XOR 45" by (simp add: P48_def)

lemma unat_low64: "unat (mm_extract_epi64 v 0) = take_bit 64 (unat v)"
  by (simp add: mm_extract_epi64_def unsigned_ucast_eq)

lemma unat_and_mask_left: "unat (mask n AND w :: u64) = take_bit n (unat w)"
  by (simp add: unsigned_take_bit_eq and.commute flip: take_bit_eq_mask)

lemma unat_window:
  "unat (ucast (take_bit n (drop_bit n (v::m128i))) :: u64) = take_bit 64 (take_bit n (drop_bit n (unat v)))"
  by (simp add: unsigned_ucast_eq unsigned_take_bit_eq unat_drop_bit_eq min.commute)

text \<open>
  An arithmetic shift is the logical one when the sign bit is clear.
\<close>

lemma signed_drop_bit_if_sign_clear:
  fixes w :: u64
  assumes "\<not> bit w 63"
  shows "signed_drop_bit n w = drop_bit n w"
proof (rule bit_word_eqI)
  fix k
  assume "k < LENGTH(64)"
  then have k: "k < 64" by simp
  show "bit (signed_drop_bit n w) k \<longleftrightarrow> bit (drop_bit n w) k"
  proof (cases "64 - n \<le> k")
    case True
    then have "64 \<le> n + k" by simp
    then have "\<not> bit w (n + k)"
      using bit_imp_le_length [of w "n + k"] by auto
    with True k assms show ?thesis
      by (simp add: bit_signed_drop_bit_iff bit_drop_bit_eq)
  next
    case False
    with k show ?thesis
      by (simp add: bit_signed_drop_bit_iff bit_drop_bit_eq)
  qed
qed

text \<open>
  The lane that is shifted arithmetically holds the low half of the product of the
  upper window of the input by the modulus \<open>2\<^sup>n + p\<close>. Its sign bit is bit \<open>63 - n\<close> of
  the window, which is bit 63 of the input.
\<close>

lemma window_product_sign:
  fixes v :: m128i and Pw :: u64
  assumes v: "\<not> bit v 63"
    and P: "unat Pw = 2 ^ n XOR p" and p: "p < 2 ^ 6"
    and n: "n \<le> 57" "32 \<le> n"
  shows "\<not> bit (mm_extract_epi64 (clmul (ucast (take_bit n (drop_bit n v))) Pw) 0) 63"
proof -
  define Hw :: u64 where "Hw = ucast (take_bit n (drop_bit n v))"
  define H where "H = unat Hw"
  have "H = take_bit 64 (take_bit n (drop_bit n (unat v)))"
    unfolding H_def Hw_def by (rule unat_window)
  also have "\<dots> \<le> take_bit n (drop_bit n (unat v))"
    by (rule take_bit_nat_less_eq_self)
  also have "\<dots> < 2 ^ n"
    by (rule take_bit_nat_less_exp)
  finally have H: "H < 2 ^ n" .
  have "bit Hw (63 - n) \<longleftrightarrow> bit v 63"
  proof -
    from n have "63 - n < 64" "63 - n < n" "n + (63 - n) = 63"
      by simp_all
    then show ?thesis
      by (simp add: Hw_def bit_simps)
  qed
  with v have b: "\<not> bit H (63 - n)"
    by (simp add: H_def bit_simps)
  have prod: "unat (clmul Hw Pw) = push_bit n H XOR clmul_nat H p"
    by (simp only: unat_clmul P clmul_nat_modulus H_def)
  have "clmul_nat H p < 2 ^ (n + 6 - 1)"
    using H p by (rule clmul_nat_less_exp)
  also have "\<dots> \<le> (2::nat) ^ 63"
    by (rule power_increasing) (use n in simp_all)
  finally have "\<not> bit (clmul_nat H p) 63"
    by (rule not_bit_if_less)
  moreover have "bit (push_bit n H) 63 \<longleftrightarrow> bit H (63 - n)"
    using n by (simp add: bit_push_bit_iff)
  ultimately have "\<not> bit (unat (clmul Hw Pw)) 63"
    using b by (simp add: prod bit_xor_iff)
  then have "\<not> bit (clmul Hw Pw) 63"
    by (simp add: bit_simps)
  then show ?thesis
    by (simp add: mm_extract_epi64_def bit_simps Hw_def)
qed

lemma reduce_GF2_40_if_sign_clear:
  assumes "\<not> bit v 63"
  shows "reduce_GF2_40 v = mask 40 AND (mm_extract_epi64 v 0 XOR
     mm_extract_epi64 (clmul (ucast (take_bit 40 (drop_bit 40
       (clmul (ucast (take_bit 40 (drop_bit 40 v))) P_GF2_40)))) P_GF2_40) 0)"
proof -
  have "\<not> bit (mm_extract_epi64 (clmul (ucast (take_bit 40 (drop_bit 40 v))) P_GF2_40) 0) 63"
    using assms by (rule window_product_sign [where p = 57]) (simp_all add: unat_P_GF2_40 P40_split)
  then have "signed_drop_bit 40 (mm_extract_epi64 (clmul (ucast (take_bit 40 (drop_bit 40 v))) P_GF2_40) 0)
      = drop_bit 40 (mm_extract_epi64 (clmul (ucast (take_bit 40 (drop_bit 40 v))) P_GF2_40) 0)"
    by (rule signed_drop_bit_if_sign_clear)
  then show ?thesis
    unfolding reduce_GF2_40_def Let_def R_red_40 mask40
    by (simp only: R_red_40)
qed

lemma reduce_GF2_48_if_sign_clear:
  assumes "\<not> bit v 63"
  shows "reduce_GF2_48 v = mask 56 AND (mm_extract_epi64 v 0 XOR
     mm_extract_epi64 (clmul (ucast (take_bit 48 (drop_bit 48
       (clmul (ucast (take_bit 48 (drop_bit 48 v))) P_GF2_48)))) P_GF2_48) 0)"
proof -
  have "\<not> bit (mm_extract_epi64 (clmul (ucast (take_bit 48 (drop_bit 48 v))) P_GF2_48) 0) 63"
    using assms by (rule window_product_sign [where p = 45]) (simp_all add: unat_P_GF2_48 P48_split)
  then have "signed_drop_bit 48 (mm_extract_epi64 (clmul (ucast (take_bit 48 (drop_bit 48 v))) P_GF2_48) 0)
      = drop_bit 48 (mm_extract_epi64 (clmul (ucast (take_bit 48 (drop_bit 48 v))) P_GF2_48) 0)"
    by (rule signed_drop_bit_if_sign_clear)
  then show ?thesis
    unfolding reduce_GF2_48_def Let_def R_red_48 mask56
    by (simp only: R_red_48)
qed

lemma reduce_GF2_32_unat:
  assumes "unat v < 2 ^ 64"
  shows "unat (reduce_GF2_32 v) = barrett_nat 32 P32 (unat v)"
proof -
  define A where "A = unat v"
  define H where "H = drop_bit 32 A"
  define q where "q = drop_bit 32 (clmul_nat H P32)"
  define Rw where "Rw = mm_extract_epi64 v 0"
  define T1w where "T1w = mm_extract_epi64 (clmul (drop_bit 32 Rw) P_GF2_32) 0"
  define T2w where "T2w = mm_extract_epi64 (clmul (drop_bit 32 T1w) P_GF2_32) 0"
  have red: "reduce_GF2_32 v = mask 32 AND (Rw XOR T2w)"
    unfolding reduce_GF2_32_def Let_def mask32 Rw_def T1w_def T2w_def by (rule refl)
  have A: "A < 2 ^ (32 + 32)" using assms by (simp add: A_def)
  then have H: "H < 2 ^ 32" unfolding H_def by (rule drop_bit_nat_less)
  have P: "P32 < 2 ^ 33" by (simp add: P32_def)
  have R: "unat Rw = A"
    using assms by (simp add: Rw_def unat_low64 A_def take_bit_nat_eq_self)
  have "clmul_nat H P32 < 2 ^ (32 + 33 - 1)" using H P by (rule clmul_nat_less_exp)
  then have "take_bit 64 (clmul_nat H P32) = clmul_nat H P32"
    by (simp add: take_bit_nat_eq_self)
  then have T1: "unat T1w = clmul_nat H P32"
    by (simp add: T1w_def unat_low64 unat_clmul unat_drop_bit_eq R unat_P_GF2_32 H_def)
  have q: "q < 2 ^ 32"
    unfolding q_def P32_split using barrett_quotient(2) [of 141 8 32 H] H by simp
  have "clmul_nat q P32 < 2 ^ (32 + 33 - 1)" using q P by (rule clmul_nat_less_exp)
  then have "take_bit 64 (clmul_nat q P32) = clmul_nat q P32"
    by (simp add: take_bit_nat_eq_self)
  then have T2: "unat T2w = clmul_nat q P32"
    by (simp add: T2w_def unat_low64 unat_clmul unat_drop_bit_eq T1 unat_P_GF2_32 q_def)
  have r: "barrett_nat 32 P32 A < 2 ^ 32"
    unfolding P32_split using barrett_nat_less [of 141 8 32 A] A by simp
  have b: "A XOR clmul_nat q P32 = barrett_nat 32 P32 A"
    by (simp only: barrett_nat_def q_def H_def)
  have "unat (reduce_GF2_32 v) = take_bit 32 (A XOR clmul_nat q P32)"
    by (simp only: red unat_and_mask_left unsigned_xor_eq R T2)
  also have "\<dots> = barrett_nat 32 P32 A"
    unfolding b using r by (rule take_bit_nat_eq_self)
  finally show ?thesis by (simp only: A_def)
qed

lemma reduce_GF2_40_unat:
  assumes "unat v < 2 ^ 80" and "\<not> bit v 63"
  shows "unat (reduce_GF2_40 v) = barrett_nat 40 P40 (unat v)"
proof -
  define A where "A = unat v"
  define H where "H = drop_bit 40 A"
  define q where "q = drop_bit 40 (clmul_nat H P40)"
  define Rw where "Rw = mm_extract_epi64 v 0"
  define Hw :: u64 where "Hw = ucast (take_bit 40 (drop_bit 40 v))"
  define T1v where "T1v = clmul Hw P_GF2_40"
  define qw :: u64 where "qw = ucast (take_bit 40 (drop_bit 40 T1v))"
  define T2w where "T2w = mm_extract_epi64 (clmul qw P_GF2_40) 0"
  have red: "reduce_GF2_40 v = mask 40 AND (Rw XOR T2w)"
    unfolding reduce_GF2_40_if_sign_clear [OF assms(2)] Rw_def T2w_def qw_def T1v_def Hw_def
    by (rule refl)
  have A: "A < 2 ^ (40 + 40)" using assms(1) by (simp add: A_def)
  then have H: "H < 2 ^ 40" unfolding H_def by (rule drop_bit_nat_less)
  have P: "P40 < 2 ^ 41" by (simp add: P40_def)
  have R: "unat Rw = take_bit 64 A"
    by (simp add: Rw_def unat_low64 A_def)
  have Hw: "unat Hw = H"
    using H by (simp add: Hw_def unat_window take_bit_nat_eq_self H_def A_def)
  have T1: "unat T1v = clmul_nat H P40"
    by (simp add: T1v_def unat_clmul Hw unat_P_GF2_40)
  have q: "q < 2 ^ 40"
    unfolding q_def P40_split using barrett_quotient(2) [of 57 6 40 H] H by simp
  have qw: "unat qw = q"
    using q by (simp add: qw_def unat_window T1 take_bit_nat_eq_self q_def)
  have T2: "unat T2w = take_bit 64 (clmul_nat q P40)"
    by (simp add: T2w_def unat_low64 unat_clmul qw unat_P_GF2_40)
  have r: "barrett_nat 40 P40 A < 2 ^ 40"
    unfolding P40_split using barrett_nat_less [of 57 6 40 A] A by simp
  have b: "A XOR clmul_nat q P40 = barrett_nat 40 P40 A"
    by (simp only: barrett_nat_def q_def H_def)
  have r64: "barrett_nat 40 P40 A < 2 ^ 64"
    using r by (rule less_le_trans) simp
  have "unat (reduce_GF2_40 v) = take_bit 40 (take_bit 64 (A XOR clmul_nat q P40))"
    by (simp only: red unat_and_mask_left unsigned_xor_eq R T2 take_bit_xor)
  also have "\<dots> = barrett_nat 40 P40 A"
    unfolding b by (simp only: take_bit_nat_eq_self [OF r64] take_bit_nat_eq_self [OF r])
  finally show ?thesis by (simp only: A_def)
qed

lemma reduce_GF2_48_unat:
  assumes "unat v < 2 ^ 96" and "\<not> bit v 63"
  shows "unat (reduce_GF2_48 v) = barrett_nat 48 P48 (unat v)"
proof -
  define A where "A = unat v"
  define H where "H = drop_bit 48 A"
  define q where "q = drop_bit 48 (clmul_nat H P48)"
  define Rw where "Rw = mm_extract_epi64 v 0"
  define Hw :: u64 where "Hw = ucast (take_bit 48 (drop_bit 48 v))"
  define T1v where "T1v = clmul Hw P_GF2_48"
  define qw :: u64 where "qw = ucast (take_bit 48 (drop_bit 48 T1v))"
  define T2w where "T2w = mm_extract_epi64 (clmul qw P_GF2_48) 0"
  have red: "reduce_GF2_48 v = mask 56 AND (Rw XOR T2w)"
    unfolding reduce_GF2_48_if_sign_clear [OF assms(2)] Rw_def T2w_def qw_def T1v_def Hw_def
    by (rule refl)
  have A: "A < 2 ^ (48 + 48)" using assms(1) by (simp add: A_def)
  then have H: "H < 2 ^ 48" unfolding H_def by (rule drop_bit_nat_less)
  have P: "P48 < 2 ^ 49" by (simp add: P48_def)
  have R: "unat Rw = take_bit 64 A"
    by (simp add: Rw_def unat_low64 A_def)
  have Hw: "unat Hw = H"
    using H by (simp add: Hw_def unat_window take_bit_nat_eq_self H_def A_def)
  have T1: "unat T1v = clmul_nat H P48"
    by (simp add: T1v_def unat_clmul Hw unat_P_GF2_48)
  have q: "q < 2 ^ 48"
    unfolding q_def P48_split using barrett_quotient(2) [of 45 6 48 H] H by simp
  have qw: "unat qw = q"
    using q by (simp add: qw_def unat_window T1 take_bit_nat_eq_self q_def)
  have T2: "unat T2w = take_bit 64 (clmul_nat q P48)"
    by (simp add: T2w_def unat_low64 unat_clmul qw unat_P_GF2_48)
  have r: "barrett_nat 48 P48 A < 2 ^ 48"
    unfolding P48_split using barrett_nat_less [of 45 6 48 A] A by simp
  then have r': "barrett_nat 48 P48 A < 2 ^ 56"
    by (rule less_le_trans) simp
  have b: "A XOR clmul_nat q P48 = barrett_nat 48 P48 A"
    by (simp only: barrett_nat_def q_def H_def)
  have r64: "barrett_nat 48 P48 A < 2 ^ 64"
    using r by (rule less_le_trans) simp
  have "unat (reduce_GF2_48 v) = take_bit 56 (take_bit 64 (A XOR clmul_nat q P48))"
    by (simp only: red unat_and_mask_left unsigned_xor_eq R T2 take_bit_xor)
  also have "\<dots> = barrett_nat 48 P48 A"
    unfolding b by (simp only: take_bit_nat_eq_self [OF r64] take_bit_nat_eq_self [OF r'])
  finally show ?thesis by (simp only: A_def)
qed
section \<open>The configured field\<close>

text \<open>
  The moduli the specification names are \<open>P32\<close>, \<open>P40\<close> and \<open>P48\<close>, one per \<open>lambda\<close>.
  A configuration is active for \<open>lambda\<close> when the two static members hold what
  \<open>init_extension_field\<close> stores for it, and a field element is valid when it fits the
  \<open>8 * byte_size\<close> bits of the active field.
\<close>

definition field_modulus :: "nat \<Rightarrow> nat" where
  "field_modulus lam = (if lam = 4 then P32 else if lam = 5 then P40 else P48)"

definition active_config :: "nat \<Rightarrow> gf2e_static \<Rightarrow> bool" where
  "active_config lam st \<longleftrightarrow>
     lam = 4 \<and> reduce st = Reduce_GF2_32 \<and> byte_size st = 4
     \<or> lam = 5 \<and> reduce st = Reduce_GF2_40 \<and> byte_size st = 5
     \<or> lam = 6 \<and> reduce st = Reduce_GF2_48 \<and> byte_size st = 6"

definition GF2E_valid :: "gf2e_static \<Rightarrow> GF2E \<Rightarrow> bool" where
  "GF2E_valid st a \<longleftrightarrow> unat a < 2 ^ (8 * byte_size st)"

text \<open>
  \<^verbatim>\<open>reduce_GF2_32\<close> computes the remainder on every product of two valid elements. The
  other two routines do so when bit 63 of the product is clear; when it is set, their
  arithmetic shift fills the upper bits of the second quotient with ones. The laws of the
  field are therefore proved for the configuration of \<open>lambda = 4\<close> only.
\<close>

definition exact_config :: "nat \<Rightarrow> gf2e_static \<Rightarrow> bool" where
  "exact_config lam st \<longleftrightarrow> lam = 4 \<and> reduce st = Reduce_GF2_32 \<and> byte_size st = 4"

lemma exact_config_active: "exact_config lam st \<Longrightarrow> active_config lam st"
  by (simp add: exact_config_def active_config_def)

lemma exact_config_initial: "exact_config 4 initial_static"
  by (simp add: exact_config_def initial_static_def)

lemma active_config_cases:
  assumes "active_config lam st"
  obtains "lam = 4" "reduce st = Reduce_GF2_32" "byte_size st = 4"
  | "lam = 5" "reduce st = Reduce_GF2_40" "byte_size st = 5"
  | "lam = 6" "reduce st = Reduce_GF2_48" "byte_size st = 6"
  using assms unfolding active_config_def by blast

lemma apply_reduce_exact:
  assumes "active_config lam st" and "unat v < 2 ^ (8 * byte_size st + 8 * byte_size st)"
    and "lam = 4 \<or> \<not> bit v 63"
  shows "unat (apply_reduce (reduce st) v) = gf2_mod (unat v) (field_modulus lam)"
    and "unat (apply_reduce (reduce st) v) < 2 ^ (8 * byte_size st)"
proof -
  have "unat (apply_reduce (reduce st) v) = gf2_mod (unat v) (field_modulus lam)
      \<and> unat (apply_reduce (reduce st) v) < 2 ^ (8 * byte_size st)"
    using assms(1)
  proof (cases rule: active_config_cases)
    case 1
    with assms(2) have v: "unat v < 2 ^ (32 + 32)" by simp
    then have "unat v < 2 ^ 64" by simp
    then have "unat (reduce_GF2_32 v) = barrett_nat 32 (2 ^ 32 XOR 141) (unat v)"
      by (simp only: reduce_GF2_32_unat P32_split)
    moreover have "barrett_nat 32 (2 ^ 32 XOR 141) (unat v) = gf2_mod (unat v) (2 ^ 32 XOR 141)"
      by (rule barrett_nat_gf2_mod [of 141 8]) (use v in simp_all)
    moreover have "barrett_nat 32 (2 ^ 32 XOR 141) (unat v) < 2 ^ 32"
      by (rule barrett_nat_less [of 141 8]) (use v in simp_all)
    ultimately show ?thesis
      using 1 by (simp add: field_modulus_def P32_split)
  next
    case 2
    with assms(2) have v: "unat v < 2 ^ (40 + 40)" by simp
    then have "unat v < 2 ^ 80" by simp
    moreover from 2 assms(3) have "\<not> bit v 63" by simp
    ultimately have "unat (reduce_GF2_40 v) = barrett_nat 40 P40 (unat v)"
      by (rule reduce_GF2_40_unat)
    then have "unat (reduce_GF2_40 v) = barrett_nat 40 (2 ^ 40 XOR 57) (unat v)"
      by (simp only: P40_split)
    moreover have "barrett_nat 40 (2 ^ 40 XOR 57) (unat v) = gf2_mod (unat v) (2 ^ 40 XOR 57)"
      by (rule barrett_nat_gf2_mod [of 57 6]) (use v in simp_all)
    moreover have "barrett_nat 40 (2 ^ 40 XOR 57) (unat v) < 2 ^ 40"
      by (rule barrett_nat_less [of 57 6]) (use v in simp_all)
    ultimately show ?thesis
      using 2 by (simp add: field_modulus_def P40_split)
  next
    case 3
    with assms(2) have v: "unat v < 2 ^ (48 + 48)" by simp
    then have "unat v < 2 ^ 96" by simp
    moreover from 3 assms(3) have "\<not> bit v 63" by simp
    ultimately have "unat (reduce_GF2_48 v) = barrett_nat 48 P48 (unat v)"
      by (rule reduce_GF2_48_unat)
    then have "unat (reduce_GF2_48 v) = barrett_nat 48 (2 ^ 48 XOR 45) (unat v)"
      by (simp only: P48_split)
    moreover have "barrett_nat 48 (2 ^ 48 XOR 45) (unat v) = gf2_mod (unat v) (2 ^ 48 XOR 45)"
      by (rule barrett_nat_gf2_mod [of 45 6]) (use v in simp_all)
    moreover have "barrett_nat 48 (2 ^ 48 XOR 45) (unat v) < 2 ^ 48"
      by (rule barrett_nat_less [of 45 6]) (use v in simp_all)
    ultimately show ?thesis
      using 3 by (simp add: field_modulus_def P48_split)
  qed
  then show "unat (apply_reduce (reduce st) v) = gf2_mod (unat v) (field_modulus lam)"
    and "unat (apply_reduce (reduce st) v) < 2 ^ (8 * byte_size st)"
    by simp_all
qed

lemma unat_clmul_less:
  assumes "unat a < 2 ^ n" "unat b < 2 ^ n"
  shows "unat (clmul a b) < 2 ^ (n + n)"
proof -
  have "clmul_nat (unat a) (unat b) < 2 ^ (n + n - 1)"
    using assms by (rule clmul_nat_less_exp)
  also have "\<dots> \<le> 2 ^ (n + n)"
    by (rule power_increasing) simp_all
  finally show ?thesis by (simp only: unat_clmul)
qed

section \<open>The loops that build the lifting table\<close>

lemma length_lut_inner [simp]: "length (lut_inner pw start idx lut) = length lut"
proof (induction pw start idx lut rule: lut_inner.induct)
  case (1 pw start idx lut)
  show ?case
  proof (cases "idx < start")
    case True
    with 1 show ?thesis by (simp add: lut_inner.simps [of pw start idx lut])
  next
    case False
    then show ?thesis by (simp add: lut_inner.simps [of pw start idx lut])
  qed
qed

lemma length_lut_outer [simp]: "length (lut_outer st g b pw lut) = length lut"
proof (induction st g b pw lut rule: lut_outer.induct)
  case (1 st g b pw lut)
  show ?case
  proof (cases "b < 8")
    case True
    with 1 show ?thesis by (simp add: lut_outer.simps [of st g b pw lut])
  next
    case False
    then show ?thesis by (simp add: lut_outer.simps [of st g b pw lut])
  qed
qed

lemma length_init_lifting_lut [simp]: "length (init_lifting_lut st g lut) = length lut"
  by (simp add: init_lifting_lut_def)


text \<open>
  The powers of the generator as the loop accumulates them: the first is the generator
  itself, each next one the last times the generator.
\<close>

primrec GF2E_power :: "gf2e_static \<Rightarrow> GF2E \<Rightarrow> nat \<Rightarrow> GF2E" where
  "GF2E_power st g 0 = 1"
| "GF2E_power st g (Suc n) = (if n = 0 then g else GF2E_mul st (GF2E_power st g n) g)"

definition field_generator :: "nat \<Rightarrow> GF2E" where
  "field_generator lam =
     (if lam = 4 then gen_GF2_32 else if lam = 5 then gen_GF2_40 else gen_GF2_48)"

text \<open>
  The state the program starts in: the initialisers of the two static members, and the
  zero-initialised table.
\<close>

definition initial_state :: field_state where
  "initial_state = \<lparr>statics = initial_static, lifting_lut = replicate 256 0\<rparr>"

lemma lut_inner_nth:
  "start + start \<le> length lut \<Longrightarrow>
   lut_inner pw start idx lut ! i
     = (if start + idx \<le> i \<and> i < start + start then GF2E_add (lut ! (i - start)) pw else lut ! i)"
proof (induction pw start idx lut rule: lut_inner.induct)
  case (1 pw start idx lut)
  show ?case
  proof (cases "idx < start")
    case False
    then have n: "\<not> (start + idx \<le> i \<and> i < start + start)"
      by linarith
    from False have "lut_inner pw start idx lut = lut"
      by (simp add: lut_inner.simps [of pw start idx lut])
    then show ?thesis
      by (simp only: if_not_P [OF n])
  next
    case True
    define lut' where "lut' = lut[start + idx := GF2E_add (lut ! idx) pw]"
    have len: "start + start \<le> length lut'"
      using "1.prems" by (simp add: lut'_def)
    have unfold: "lut_inner pw start idx lut = lut_inner pw start (Suc idx) lut'"
      using True by (simp add: lut_inner.simps [of pw start idx lut] lut'_def)
    have IH: "lut_inner pw start (Suc idx) lut' ! i
        = (if start + Suc idx \<le> i \<and> i < start + start
           then GF2E_add (lut' ! (i - start)) pw else lut' ! i)"
      using "1.IH" [OF True] len unfolding lut'_def by simp
    have inrange: "start + idx < length lut"
      using True "1.prems" by simp
    show ?thesis
    proof (cases "i = start + idx")
      case True
      with \<open>idx < start\<close> inrange show ?thesis
        unfolding unfold IH by (simp add: lut'_def)
    next
      case False
      have "i - start \<noteq> start + idx" if "i < start + start"
        using that by simp
      with False show ?thesis
        unfolding unfold IH by (auto simp add: lut'_def)
    qed
  qed
qed


lemma lut_outer_spec:
  assumes "1 \<le> b" "b \<le> 8" "length lut = 256" "pw = GF2E_power st g b"
  shows "(\<forall>i<2 ^ b. lut_outer st g b pw lut ! i = lut ! i)
       \<and> (\<forall>c idx. b \<le> c \<and> c < 8 \<and> idx < 2 ^ c \<longrightarrow>
            lut_outer st g b pw lut ! (2 ^ c + idx)
              = GF2E_add (lut_outer st g b pw lut ! idx) (GF2E_power st g c))"
  using assms
proof (induction st g b pw lut rule: lut_outer.induct)
  case (1 st g b pw lut)
  show ?case
  proof (cases "b < 8")
    case False
    then show ?thesis
      by (auto simp add: lut_outer.simps [of st g b pw lut])
  next
    case True
    define lut1 where "lut1 = lut_inner pw (2 ^ b) 0 lut"
    define R where "R = lut_outer st g (Suc b) (GF2E_mul st pw g) lut1"
    have unfold: "lut_outer st g b pw lut = R"
      using True by (simp add: lut_outer.simps [of st g b pw lut] R_def lut1_def)
    have "(2::nat) ^ Suc b \<le> 2 ^ 8"
      by (rule power_increasing) (use True in simp_all)
    then have fits: "(2::nat) ^ b + 2 ^ b \<le> length lut"
      using "1.prems"(3) by simp
    have lut1: "lut1 ! i = (if 2 ^ b \<le> i \<and> i < 2 ^ b + 2 ^ b
        then GF2E_add (lut ! (i - 2 ^ b)) pw else lut ! i)" for i
      unfolding lut1_def using lut_inner_nth [OF fits, of pw 0 i] by simp
    have pw': "GF2E_mul st pw g = GF2E_power st g (Suc b)"
      using "1.prems"(1,4) by simp
    have IH: "(\<forall>i<2 ^ Suc b. R ! i = lut1 ! i)
       \<and> (\<forall>c idx. Suc b \<le> c \<and> c < 8 \<and> idx < 2 ^ c \<longrightarrow>
            R ! (2 ^ c + idx) = GF2E_add (R ! idx) (GF2E_power st g c))"
      unfolding R_def lut1_def
      by (rule "1.IH" [OF True]) (use True "1.prems"(3) pw' in simp_all)
    have low: "R ! i = lut ! i" if "i < 2 ^ b" for i
    proof -
      from that have "i < 2 ^ Suc b" by simp
      with IH have "R ! i = lut1 ! i" by blast
      with that show ?thesis by (simp add: lut1)
    qed
    have this_bit: "R ! (2 ^ b + idx) = GF2E_add (R ! idx) (GF2E_power st g b)" if "idx < 2 ^ b" for idx
    proof -
      from that have "2 ^ b + idx < 2 ^ Suc b" by simp
      with IH have "R ! (2 ^ b + idx) = lut1 ! (2 ^ b + idx)" by blast
      also have "\<dots> = GF2E_add (lut ! idx) pw"
        using that by (simp add: lut1)
      finally show ?thesis
        using low [OF that] "1.prems"(4) by simp
    qed
    have high: "R ! (2 ^ c + idx) = GF2E_add (R ! idx) (GF2E_power st g c)"
      if "b \<le> c" "c < 8" "idx < 2 ^ c" for c idx
    proof (cases "c = b")
      case True
      with that this_bit show ?thesis by simp
    next
      case False
      with that have "Suc b \<le> c" by simp
      with IH that show ?thesis by blast
    qed
    show ?thesis
      unfolding unfold using low high by blast
  qed
qed

lemma doubling_table_step:
  fixes T :: "nat \<Rightarrow> GF2E" and x :: nat
  assumes dbl: "\<And>idx. idx < 2 ^ n \<Longrightarrow> T (2 ^ n + idx) = T idx XOR w"
    and x: "x < 2 ^ Suc n"
  shows "T x = (if bit x n then w else 0) XOR T (take_bit n x)"
proof -
  have "x = take_bit (Suc n) x"
    using x by (simp only: take_bit_nat_eq_self)
  then have x': "x = 2 ^ n * of_bool (bit x n) + take_bit n x"
    by (simp only: take_bit_Suc_from_most)
  show ?thesis
  proof (cases "bit x n")
    case True
    with x' have "x = 2 ^ n + take_bit n x" by simp
    then have "T x = T (2 ^ n + take_bit n x)" by simp
    also have "\<dots> = T (take_bit n x) XOR w"
      by (rule dbl) simp
    finally show ?thesis using True by (simp add: xor.commute)
  next
    case False
    with x' have "x = take_bit n x" by simp
    then have "T x = T (take_bit n x)" by simp
    with False show ?thesis by simp
  qed
qed

lemma doubling_table_additive:
  fixes T :: "nat \<Rightarrow> GF2E"
  assumes T0: "T 0 = 0"
    and dbl: "\<And>b idx. b < n \<Longrightarrow> idx < 2 ^ b \<Longrightarrow> T (2 ^ b + idx) = T idx XOR w b"
  shows "p < 2 ^ n \<Longrightarrow> q < 2 ^ n \<Longrightarrow> T p XOR T q = T (p XOR q)"
  using dbl
proof (induction n arbitrary: p q)
  case 0
  then show ?case by (simp add: T0)
next
  case (Suc n)
  have step: "T x = (if bit x n then w n else 0) XOR T (take_bit n x)" if "x < 2 ^ Suc n" for x
    by (rule doubling_table_step [OF _ that]) (rule Suc.prems(3), simp_all)
  have IH: "T (take_bit n p) XOR T (take_bit n q) = T (take_bit n p XOR take_bit n q)"
    by (rule Suc.IH) (simp_all add: Suc.prems(3))
  have pq: "p XOR q < 2 ^ Suc n"
    using Suc.prems(1,2) by (rule xor_nat_less_exp)
  have "T (p XOR q) = (if bit (p XOR q) n then w n else 0) XOR T (take_bit n (p XOR q))"
    using pq by (rule step)
  also have "\<dots> = (if bit p n \<noteq> bit q n then w n else 0) XOR (T (take_bit n p) XOR T (take_bit n q))"
    by (simp only: bit_xor_iff take_bit_xor IH)
  also have "\<dots> = T p XOR T q"
    unfolding step [OF Suc.prems(1)] step [OF Suc.prems(2)]
    by (simp add: xor.assoc xor.left_commute)
  finally show ?case by simp
qed


lemma init_lifting_lut_spec:
  fixes st :: gf2e_static and g :: GF2E
  assumes "length lut = 256"
  defines "T \<equiv> init_lifting_lut st g lut"
  shows "T ! 0 = 0" and "T ! 1 = 1"
    and "c < 8 \<Longrightarrow> idx < 2 ^ c \<Longrightarrow> T ! (2 ^ c + idx) = T ! idx XOR GF2E_power st g c"
proof -
  define lut0 where "lut0 = lut[0 := 0, 1 := 1]"
  have T: "T = lut_outer st g 1 g lut0"
    by (simp add: T_def init_lifting_lut_def lut0_def)
  have len: "length lut0 = 256"
    using assms(1) by (simp add: lut0_def)
  have pw: "g = GF2E_power st g 1"
    by simp
  have spec: "(\<forall>i<2 ^ 1. T ! i = lut0 ! i)
       \<and> (\<forall>c idx. 1 \<le> c \<and> c < 8 \<and> idx < 2 ^ c \<longrightarrow>
            T ! (2 ^ c + idx) = GF2E_add (T ! idx) (GF2E_power st g c))"
    unfolding T by (rule lut_outer_spec [OF _ _ len pw]) simp_all
  from spec have "T ! 0 = lut0 ! 0" by simp
  then show T0: "T ! 0 = 0"
    using assms(1) by (simp add: lut0_def)
  from spec have "T ! 1 = lut0 ! 1" by simp
  then show T1: "T ! 1 = 1"
    using assms(1) by (simp add: lut0_def)
  show "T ! (2 ^ c + idx) = T ! idx XOR GF2E_power st g c" if "c < 8" "idx < 2 ^ c"
  proof (cases "c = 0")
    case True
    with that T0 T1 show ?thesis by simp
  next
    case False
    then have "1 \<le> c" by simp
    with spec that show ?thesis by (simp add: GF2E_add_def)
  qed
qed

lemma lift_additive:
  fixes st :: gf2e_static and g :: GF2E
  assumes "length lut = 256"
  defines "T \<equiv> init_lifting_lut st g lut"
  shows "GF2E_add (lift_uint8_t T p) (lift_uint8_t T q) = lift_uint8_t T (p XOR q)"
proof -
  have p: "unat p < 2 ^ 8" and q: "unat q < 2 ^ 8"
    using unsigned_less [of p, where 'a = nat] unsigned_less [of q, where 'a = nat] by simp_all
  have "(!) T (unat p) XOR (!) T (unat q) = (!) T (unat p XOR unat q)"
  proof (rule doubling_table_additive [of "(!) T" 8 "GF2E_power st g", OF _ _ p q])
    show "T ! 0 = 0"
      unfolding T_def using assms(1) by (rule init_lifting_lut_spec(1))
    show "T ! (2 ^ b + idx) = T ! idx XOR GF2E_power st g b" if "b < 8" "idx < 2 ^ b" for b idx
      unfolding T_def using assms(1) that by (rule init_lifting_lut_spec(3))
  qed
  then show ?thesis
    by (simp add: GF2E_add_def lift_uint8_t_def unsigned_xor_eq)
qed

lemma init_extension_field_Inr:
  assumes "init_extension_field inst s = Inr s'"
  shows "lambda inst \<in> {4, 5, 6}"
    and "lifting_lut s' = init_lifting_lut (statics s') (field_generator (lambda inst)) (lifting_lut s)"
    and "active_config (lambda inst) (statics s')"
  using assms
  by (auto simp add: init_extension_field_def Let_def field_generator_def active_config_def
      split: if_splits)

lemma unat_u8_of_nat: "n < 256 \<Longrightarrow> unat (word_of_nat n :: u8) = n"
  by (simp only: unat_of_nat) simp

section \<open>Field laws of the multiplication\<close>

subsection \<open>Remainders on bit patterns\<close>

lemma gf2_mod_less:
  assumes "2 ^ d \<le> p" "p < 2 ^ Suc d"
  shows "gf2_mod a p < 2 ^ d"
  using assms
proof (induction a p rule: gf2_mod.induct)
  case (1 a p)
  have blp: "bit_length p = Suc d"
    using 1(2,3) by (rule bit_length_eq_SucI)
  show ?case
  proof (cases "p = 0 \<or> bit_length a < bit_length p")
    case True
    have "(0::nat) < 2 ^ d" by simp
    then have "0 < p" using 1(2) by (rule less_le_trans)
    with True blp have "bit_length a \<le> d" by auto
    then have "a < 2 ^ d" by (simp only: bit_length_le_iff)
    with True show ?thesis by (simp add: gf2_mod.simps [of a p])
  next
    case False
    then have "gf2_mod a p = gf2_mod (a XOR push_bit (bit_length a - bit_length p) p) p"
      by (simp add: gf2_mod.simps [of a p])
    with 1(1) [OF False 1(2,3)] show ?thesis by simp
  qed
qed

lemma gf2_mod_decomp: "\<exists>q. a = clmul_nat q p XOR gf2_mod a p"
proof (induction a p rule: gf2_mod.induct)
  case (1 a p)
  show ?case
  proof (cases "p = 0 \<or> bit_length a < bit_length p")
    case True
    then have "a = clmul_nat 0 p XOR gf2_mod a p"
      by (simp add: gf2_mod.simps [of a p])
    then show ?thesis ..
  next
    case False
    define s where "s = bit_length a - bit_length p"
    from False have step: "gf2_mod a p = gf2_mod (a XOR push_bit s p) p"
      by (simp add: gf2_mod.simps [of a p] s_def)
    from 1 [OF False] obtain q
      where q: "a XOR push_bit s p = clmul_nat q p XOR gf2_mod (a XOR push_bit s p) p"
      unfolding s_def by blast
    have "a = (a XOR push_bit s p) XOR push_bit s p"
      by (simp add: xor.assoc)
    also have "\<dots> = (clmul_nat q p XOR gf2_mod a p) XOR clmul_nat (2 ^ s) p"
      using q by (simp only: step clmul_nat_exp_left)
    also have "\<dots> = clmul_nat (q XOR 2 ^ s) p XOR gf2_mod a p"
      by (simp add: clmul_nat_xor_left xor.assoc xor.commute xor.left_commute)
    finally show ?thesis ..
  qed
qed

lemma gf2_mod_unique:
  assumes "2 ^ d \<le> p" "p < 2 ^ Suc d" "r < 2 ^ d" "x = clmul_nat q p XOR r"
  shows "gf2_mod x p = r"
  unfolding assms(4) using assms(1-3) less_exp_bit_length [of q] by (rule gf2_mod_clmul_xor)

lemma gf2_mod_clmul_left:
  assumes "2 ^ d \<le> p" "p < 2 ^ Suc d"
  shows "gf2_mod (clmul_nat (gf2_mod x p) z) p = gf2_mod (clmul_nat x z) p"
proof -
  obtain q1 where q1: "x = clmul_nat q1 p XOR gf2_mod x p"
    using gf2_mod_decomp by blast
  obtain q2 where q2: "clmul_nat (gf2_mod x p) z
      = clmul_nat q2 p XOR gf2_mod (clmul_nat (gf2_mod x p) z) p"
    using gf2_mod_decomp by blast
  have sw: "clmul_nat (clmul_nat q1 p) z = clmul_nat (clmul_nat q1 z) p"
    by (simp add: clmul_nat_assoc clmul_nat_commute [of p z])
  have "clmul_nat x z = clmul_nat (clmul_nat q1 p XOR gf2_mod x p) z"
    using q1 by simp
  also have "\<dots> = clmul_nat (clmul_nat q1 z) p XOR clmul_nat (gf2_mod x p) z"
    by (simp only: clmul_nat_xor_left sw)
  also have "\<dots> = clmul_nat (clmul_nat q1 z) p
      XOR (clmul_nat q2 p XOR gf2_mod (clmul_nat (gf2_mod x p) z) p)"
    using q2 by simp
  also have "\<dots> = clmul_nat (clmul_nat q1 z XOR q2) p
      XOR gf2_mod (clmul_nat (gf2_mod x p) z) p"
    by (simp add: clmul_nat_xor_left xor.assoc)
  finally have "clmul_nat x z = clmul_nat (clmul_nat q1 z XOR q2) p
      XOR gf2_mod (clmul_nat (gf2_mod x p) z) p" .
  with assms gf2_mod_less [OF assms]
  have "gf2_mod (clmul_nat x z) p = gf2_mod (clmul_nat (gf2_mod x p) z) p"
    by (rule gf2_mod_unique)
  then show ?thesis by simp
qed

subsection \<open>Linearity of the reduction\<close>

text \<open>
  \<^verbatim>\<open>reduce_GF2_32\<close> is linear on all 128-bit inputs. The other two routines are not: the
  arithmetic shift is not a linear map.
\<close>

lemma apply_reduce_xor:
  "r = Reduce_GF2_32 \<Longrightarrow> apply_reduce r (x XOR y) = apply_reduce r x XOR apply_reduce r y"
  by (simp add: reduce_GF2_32_xor)

lemma apply_reduce_zero [simp]: "apply_reduce r 0 = 0"
  by (cases r)
    (simp_all add: reduce_GF2_32_def reduce_GF2_40_def reduce_GF2_48_def Let_def
      mm_extract_epi64_def)

subsection \<open>Laws of \<open>GF2E_mul\<close>\<close>

lemma active_modulus_bounds:
  assumes "active_config lam st"
  shows "2 ^ (8 * byte_size st) \<le> field_modulus lam"
    and "field_modulus lam < 2 ^ Suc (8 * byte_size st)"
  using assms
  by (auto elim!: active_config_cases simp add: field_modulus_def P32_def P40_def P48_def)

lemma field_modulus_bounds:
  assumes "exact_config lam st"
  shows "2 ^ (8 * byte_size st) \<le> field_modulus lam"
    and "field_modulus lam < 2 ^ Suc (8 * byte_size st)"
  using assms [THEN exact_config_active] by (rule active_modulus_bounds)+

text \<open>
  The product of two valid elements is the remainder of their carry-less product, and
  valid, in each configuration, provided that bit 63 of the carry-less product is clear
  when \<open>lambda\<close> is 5 or 6.
\<close>

lemma GF2E_mul_if_sign_clear:
  assumes "active_config lam st" "GF2E_valid st a" "GF2E_valid st b"
    and "lam = 4 \<or> \<not> bit (clmul a b) 63"
  shows "unat (GF2E_mul st a b) = gf2_mod (clmul_nat (unat a) (unat b)) (field_modulus lam)"
    and "GF2E_valid st (GF2E_mul st a b)"
proof -
  have less: "unat (clmul a b) < 2 ^ (8 * byte_size st + 8 * byte_size st)"
    using assms(2,3) unfolding GF2E_valid_def by (rule unat_clmul_less)
  with assms(1) have "unat (apply_reduce (reduce st) (clmul a b))
      = gf2_mod (unat (clmul a b)) (field_modulus lam)"
    using assms(4) by (rule apply_reduce_exact(1))
  then show "unat (GF2E_mul st a b) = gf2_mod (clmul_nat (unat a) (unat b)) (field_modulus lam)"
    by (simp add: GF2E_mul_def unat_clmul)
  from assms(1) less assms(4)
  have "unat (apply_reduce (reduce st) (clmul a b)) < 2 ^ (8 * byte_size st)"
    by (rule apply_reduce_exact(2))
  then show "GF2E_valid st (GF2E_mul st a b)"
    by (simp add: GF2E_mul_def GF2E_valid_def)
qed

lemma GF2E_mul_unat:
  assumes "exact_config lam st" "GF2E_valid st a" "GF2E_valid st b"
  shows "unat (GF2E_mul st a b) = gf2_mod (clmul_nat (unat a) (unat b)) (field_modulus lam)"
proof -
  from assms(1) have "lam = 4 \<or> \<not> bit (clmul a b) 63"
    by (simp add: exact_config_def)
  with assms(1) [THEN exact_config_active] assms(2,3) show ?thesis
    by (rule GF2E_mul_if_sign_clear(1))
qed

lemma GF2E_mul_valid:
  assumes "exact_config lam st" "GF2E_valid st a" "GF2E_valid st b"
  shows "GF2E_valid st (GF2E_mul st a b)"
proof -
  from assms(1) have "lam = 4 \<or> \<not> bit (clmul a b) 63"
    by (simp add: exact_config_def)
  with assms(1) [THEN exact_config_active] assms(2,3) show ?thesis
    by (rule GF2E_mul_if_sign_clear(2))
qed

lemma GF2E_valid_xor: "GF2E_valid st a \<Longrightarrow> GF2E_valid st b \<Longrightarrow> GF2E_valid st (a XOR b)"
  by (simp add: GF2E_valid_def unsigned_xor_eq xor_nat_less_exp)

lemma GF2E_valid_zero [simp]: "GF2E_valid st 0"
  by (simp add: GF2E_valid_def)

lemma GF2E_valid_one: "exact_config lam st \<Longrightarrow> GF2E_valid st 1"
  by (simp add: exact_config_def GF2E_valid_def)

lemma GF2E_mul_commute: "GF2E_mul st a b = GF2E_mul st b a"
  by (simp add: GF2E_mul_def clmul_commute)

lemma GF2E_mul_xor_left:
  "exact_config lam st \<Longrightarrow> GF2E_mul st (a XOR b) c = GF2E_mul st a c XOR GF2E_mul st b c"
  by (simp add: exact_config_def GF2E_mul_def clmul_xor_left reduce_GF2_32_xor)

lemma GF2E_mul_xor_right:
  "exact_config lam st \<Longrightarrow> GF2E_mul st a (b XOR c) = GF2E_mul st a b XOR GF2E_mul st a c"
  by (simp add: exact_config_def GF2E_mul_def clmul_xor_right reduce_GF2_32_xor)

lemma GF2E_mul_zero_left [simp]: "GF2E_mul st 0 a = 0"
  by (simp add: GF2E_mul_def)

lemma GF2E_mul_zero_right [simp]: "GF2E_mul st a 0 = 0"
  by (simp add: GF2E_mul_def)

lemma GF2E_mul_one_left:
  assumes "exact_config lam st" "GF2E_valid st a"
  shows "GF2E_mul st 1 a = a"
proof -
  have "unat (GF2E_mul st 1 a) = gf2_mod (clmul_nat (unat (1::u64)) (unat a)) (field_modulus lam)"
    using assms(1) GF2E_valid_one [OF assms(1)] assms(2) by (rule GF2E_mul_unat)
  also have "\<dots> = gf2_mod (unat a) (field_modulus lam)"
    by simp
  also have "\<dots> = unat a"
    using assms(2) field_modulus_bounds(1) [OF assms(1)]
    unfolding GF2E_valid_def by (rule gf2_mod_small)
  finally show ?thesis
    by (simp only: word_unat_eq_iff)
qed

lemma GF2E_mul_one_right:
  assumes "exact_config lam st" "GF2E_valid st a"
  shows "GF2E_mul st a 1 = a"
  using GF2E_mul_one_left [OF assms] by (simp only: GF2E_mul_commute [of st a 1])

lemma GF2E_mul_assoc:
  assumes c: "exact_config lam st"
    and a: "GF2E_valid st x" and b: "GF2E_valid st y" and z: "GF2E_valid st z"
  shows "GF2E_mul st (GF2E_mul st x y) z = GF2E_mul st x (GF2E_mul st y z)"
proof -
  define P where "P = field_modulus lam"
  have P: "2 ^ (8 * byte_size st) \<le> P" "P < 2 ^ Suc (8 * byte_size st)"
    unfolding P_def using c by (rule field_modulus_bounds)+
  have "unat (GF2E_mul st (GF2E_mul st x y) z)
      = gf2_mod (clmul_nat (gf2_mod (clmul_nat (unat x) (unat y)) P) (unat z)) P"
    by (simp only: GF2E_mul_unat [OF c GF2E_mul_valid [OF c a b] z] GF2E_mul_unat [OF c a b] P_def)
  also have "\<dots> = gf2_mod (clmul_nat (clmul_nat (unat x) (unat y)) (unat z)) P"
    using P by (rule gf2_mod_clmul_left)
  also have "\<dots> = gf2_mod (clmul_nat (clmul_nat (unat y) (unat z)) (unat x)) P"
    by (simp add: clmul_nat_assoc clmul_nat_commute [of "unat x"])
  also have "\<dots> = gf2_mod (clmul_nat (gf2_mod (clmul_nat (unat y) (unat z)) P) (unat x)) P"
    using P by (rule gf2_mod_clmul_left [symmetric])
  also have "\<dots> = unat (GF2E_mul st x (GF2E_mul st y z))"
    by (simp only: GF2E_mul_unat [OF c a GF2E_mul_valid [OF c b z]] GF2E_mul_unat [OF c b z] P_def
        clmul_nat_commute [of "unat x"])
  finally show ?thesis
    by (simp only: word_unat_eq_iff)
qed

lemma GF2E_mul_depends_on_reduce:
  "reduce st = reduce st' \<Longrightarrow> GF2E_mul st a b = GF2E_mul st' a b"
  by (simp add: GF2E_mul_def)

text \<open>Under each of the three routines the product of 2 by 2 is 4.\<close>

lemma GF2E_mul_two_two: "GF2E_mul st 2 2 = 4"
  by (cases "reduce st")
    (simp_all add: GF2E_mul_def clmul_eq clmul_nat_numeral reduce_GF2_32_def reduce_GF2_40_def
      reduce_GF2_48_def Let_def P_GF2_32_def P_GF2_40_def P_GF2_48_def mm_extract_epi64_def)
section \<open>Polynomials in coefficient form\<close>

text \<open>
  The specification's product of linear factors, on coefficient lists with the coefficient
  of \<open>X\<^sup>i\<close> at index \<open>i\<close>: \<open>poly_times_linear st p r\<close> is \<open>p \<cdot> (X - r)\<close>, that is \<open>X \<cdot> p\<close> minus
  \<open>r \<cdot> p\<close>, and the product over a list of roots starts from the constant 1.
\<close>

definition poly_times_linear :: "gf2e_static \<Rightarrow> GF2E list \<Rightarrow> GF2E \<Rightarrow> GF2E list" where
  "poly_times_linear st p r =
     map2 GF2E_sub (0 # p) (map (\<lambda>c. GF2E_mul st c r) p @ [0])"

definition product_of_linear_factors :: "gf2e_static \<Rightarrow> GF2E list \<Rightarrow> GF2E list" where
  "product_of_linear_factors st roots = fold (\<lambda>r p. poly_times_linear st p r) roots [1]"

section \<open>Vector operations\<close>

text \<open>
  The dot product with one reduction per term: each product is reduced by the field
  multiplication before it is added.
\<close>

definition eager_dot_product :: "gf2e_static \<Rightarrow> GF2E list \<Rightarrow> GF2E list \<Rightarrow> GF2E" where
  "eager_dot_product st u v =
     fold (\<lambda>(a, b) acc. GF2E_add acc (GF2E_mul st a b)) (zip u v) 0"

lemma reduce_of_accumulated:
  assumes r: "r = Reduce_GF2_32"
  shows "apply_reduce r (fold (\<lambda>(a, b) accum. accum XOR clmul a b) xs acc)
   = fold (\<lambda>(a, b) accum. GF2E_add accum (apply_reduce r (clmul a b))) xs (apply_reduce r acc)"
proof (induction xs arbitrary: acc)
  case Nil
  show ?case by simp
next
  case (Cons x xs)
  obtain a b where x: "x = (a, b)" by (cases x)
  show ?case
    by (simp add: x Cons.IH apply_reduce_xor [OF r] GF2E_add_def)
qed

lemma dot_product_eq_eager:
  assumes "length u = length v" and "reduce st = Reduce_GF2_32"
  shows "dot_product st u v = Inr (eager_dot_product st u v)"
proof -
  have "apply_reduce (reduce st) (fold (\<lambda>(a, b) accum. accum XOR clmul a b) (zip u v) 0)
      = fold (\<lambda>(a, b) accum. GF2E_add accum (apply_reduce (reduce st) (clmul a b))) (zip u v)
          (apply_reduce (reduce st) 0)"
    using assms(2) by (rule reduce_of_accumulated)
  then show ?thesis
    using assms(1) by (simp add: dot_product_def eager_dot_product_def GF2E_mul_def)
qed

lemma vec_add_assign_Inr:
  "length lhs = length rhs \<Longrightarrow> vec_add_assign lhs rhs = Inr (map2 GF2E_add lhs rhs)"
  by (simp add: vec_add_assign_def)

lemma vec_add_assign_Inl:
  "length lhs \<noteq> length rhs \<Longrightarrow> vec_add_assign lhs rhs = Inl SizeMismatch"
  by (simp add: vec_add_assign_def)

lemma length_vec_scale [simp]: "length (vec_scale st p c) = length p"
  by (simp add: vec_scale_def)

lemma from_index_split:
  assumes "length (pre ! k) = n"
  shows "(\<forall>j. k \<le> j \<and> j < m \<longrightarrow> length (pre ! j) = n)
       \<longleftrightarrow> (\<forall>j. Suc k \<le> j \<and> j < m \<longrightarrow> length (pre ! j) = n)"
proof
  assume "\<forall>j. k \<le> j \<and> j < m \<longrightarrow> length (pre ! j) = n"
  then show "\<forall>j. Suc k \<le> j \<and> j < m \<longrightarrow> length (pre ! j) = n"
    by simp
next
  assume a: "\<forall>j. Suc k \<le> j \<and> j < m \<longrightarrow> length (pre ! j) = n"
  show "\<forall>j. k \<le> j \<and> j < m \<longrightarrow> length (pre ! j) = n"
  proof (intro allI impI)
    fix j
    assume j: "k \<le> j \<and> j < m"
    show "length (pre ! j) = n"
    proof (cases "j = k")
      case True
      with assms show ?thesis by simp
    next
      case False
      with j have "Suc k \<le> j" by simp
      with a j show ?thesis by simp
    qed
  qed
qed

lemma interp_loop_outcome:
  "length res = n \<Longrightarrow>
   (if \<forall>j. k \<le> j \<and> j < length ys \<longrightarrow> length (pre ! j) = n
    then \<exists>r. interp_loop st pre ys k res = Inr r \<and> length r = n
    else interp_loop st pre ys k res = Inl SizeMismatch)"
proof (induction st pre ys k res rule: interp_loop.induct)
  case (1 st pre ys k res)
  show ?case
  proof (cases "k < length ys")
    case False
    then show ?thesis
      using "1.prems" by (simp add: interp_loop.simps [of st pre ys k res])
  next
    case True
    show ?thesis
    proof (cases "length (pre ! k) = n")
      case False
      with True "1.prems"
      have "interp_loop st pre ys k res = Inl SizeMismatch"
        by (simp add: interp_loop.simps [of st pre ys k res] vec_add_assign_Inl)
      moreover from True False
      have "\<not> (\<forall>j. k \<le> j \<and> j < length ys \<longrightarrow> length (pre ! j) = n)"
        by auto
      ultimately show ?thesis by simp
    next
      case len: True
      define res' where "res' = map2 GF2E_add res (vec_scale st (pre ! k) (ys ! k))"
      have step: "vec_add_assign res (vec_scale st (pre ! k) (ys ! k)) = Inr res'"
        unfolding res'_def using len "1.prems" by (simp add: vec_add_assign_Inr)
      have res': "length res' = n"
        using len "1.prems" by (simp add: res'_def)
      have unfold: "interp_loop st pre ys k res = interp_loop st pre ys (Suc k) res'"
        using True by (simp add: interp_loop.simps [of st pre ys k res] step)
      have "(\<forall>j. k \<le> j \<and> j < length ys \<longrightarrow> length (pre ! j) = n)
          \<longleftrightarrow> (\<forall>j. Suc k \<le> j \<and> j < length ys \<longrightarrow> length (pre ! j) = n)"
        using len by (rule from_index_split)
      with "1.IH" [OF True step res'] show ?thesis
        by (simp only: unfold)
    qed
  qed
qed

lemma interpolate_outcome:
  assumes "length pre = length ys" "ys \<noteq> []"
  shows "(if \<forall>p\<in>set pre. length p = length (pre ! 0)
          then \<exists>r. interpolate_with_precomputation st pre ys = Inr r
                 \<and> length r = length (pre ! 0)
          else interpolate_with_precomputation st pre ys = Inl SizeMismatch)"
proof -
  have "(\<forall>j. 0 \<le> j \<and> j < length ys \<longrightarrow> length (pre ! j) = length (pre ! 0))
      \<longleftrightarrow> (\<forall>p\<in>set pre. length p = length (pre ! 0))"
    using assms(1) by (simp add: all_set_conv_all_nth)
  moreover have "interpolate_with_precomputation st pre ys
      = interp_loop st pre ys 0 (replicate (length (pre ! 0)) 0)"
    using assms by (simp add: interpolate_with_precomputation_def)
  ultimately show ?thesis
    using interp_loop_outcome [of "replicate (length (pre ! 0)) 0" "length (pre ! 0)" 0 ys pre st]
    by simp
qed

lemma interpolate_succeeds:
  assumes "length pre = length ys" "ys \<noteq> []" "\<forall>p\<in>set pre. length p = length (pre ! 0)"
  shows "\<exists>r. interpolate_with_precomputation st pre ys = Inr r \<and> length r = length (pre ! 0)"
  using interpolate_outcome [OF assms(1,2), of st] by (simp only: if_P [OF assms(3)])

lemma interpolate_ragged_fails:
  assumes "length pre = length ys" "ys \<noteq> []" "\<not> (\<forall>p\<in>set pre. length p = length (pre ! 0))"
  shows "interpolate_with_precomputation st pre ys = Inl SizeMismatch"
  using interpolate_outcome [OF assms(1,2), of st] by (simp only: if_not_P [OF assms(3)])

lemma interpolate_bad_sizes:
  assumes "length pre \<noteq> length ys \<or> pre = [] \<or> ys = []"
  shows "interpolate_with_precomputation st pre ys = Inl SizeMismatch"
proof (cases "length pre = length ys")
  case True
  with assms have "ys = []" by auto
  then show ?thesis by (simp add: interpolate_with_precomputation_def)
next
  case False
  then show ?thesis by (simp add: interpolate_with_precomputation_def)
qed

section \<open>Horner evaluation and the product of linear factors\<close>

lemma field_eval_Nil [simp]: "field_eval st [] x = 0"
  by (simp add: field_eval_def)

lemma field_eval_Cons:
  "field_eval st (c # p) x = GF2E_mul st (field_eval st p x) x XOR c"
  by (simp add: field_eval_def GF2E_add_def)

lemma field_eval_valid:
  assumes "exact_config lam st" "GF2E_valid st x"
  shows "\<forall>c\<in>set p. GF2E_valid st c \<Longrightarrow> GF2E_valid st (field_eval st p x)"
proof (induction p)
  case Nil
  show ?case by simp
next
  case (Cons c p)
  then have "GF2E_valid st (field_eval st p x)" and c: "GF2E_valid st c"
    by simp_all
  then have "GF2E_valid st (GF2E_mul st (field_eval st p x) x)"
    using assms by (simp add: GF2E_mul_valid)
  with c show ?case
    by (simp add: field_eval_Cons GF2E_valid_xor)
qed

lemma field_eval_map2_add:
  assumes c: "exact_config lam st"
  shows "length a = length b \<Longrightarrow>
   field_eval st (map2 GF2E_add a b) x = field_eval st a x XOR field_eval st b x"
proof (induction a b rule: list_induct2)
  case Nil
  show ?case by simp
next
  case (Cons u a v b)
  then show ?case
    by (simp add: field_eval_Cons GF2E_add_def GF2E_mul_xor_left [OF c] xor.assoc xor.left_commute)
qed

lemma field_eval_replicate_zero [simp]: "field_eval st (replicate n 0) x = 0"
  by (induction n) (simp_all add: field_eval_Cons)

lemma GF2E_mul_swap:
  assumes "exact_config lam st" "GF2E_valid st a" "GF2E_valid st b" "GF2E_valid st c"
  shows "GF2E_mul st (GF2E_mul st a b) c = GF2E_mul st (GF2E_mul st a c) b"
proof -
  have "GF2E_mul st (GF2E_mul st a b) c = GF2E_mul st a (GF2E_mul st b c)"
    using assms by (rule GF2E_mul_assoc)
  also have "\<dots> = GF2E_mul st a (GF2E_mul st c b)"
    by (simp only: GF2E_mul_commute [of st b c])
  also have "\<dots> = GF2E_mul st (GF2E_mul st a c) b"
    using assms(1,2,4,3) by (rule GF2E_mul_assoc [symmetric])
  finally show ?thesis .
qed

lemma field_eval_vec_scale:
  assumes "exact_config lam st" "GF2E_valid st x" "GF2E_valid st s"
  shows "\<forall>c\<in>set p. GF2E_valid st c \<Longrightarrow>
    field_eval st (vec_scale st p s) x = GF2E_mul st (field_eval st p x) s"
proof (induction p)
  case Nil
  show ?case by (simp add: vec_scale_def)
next
  case (Cons c p)
  then have IH: "field_eval st (vec_scale st p s) x = GF2E_mul st (field_eval st p x) s"
    and p: "\<forall>c\<in>set p. GF2E_valid st c"
    by simp_all
  have E: "GF2E_valid st (field_eval st p x)"
    using assms(1,2) p by (rule field_eval_valid)
  have "field_eval st (vec_scale st (c # p) s) x
      = GF2E_mul st (field_eval st (vec_scale st p s) x) x XOR GF2E_mul st c s"
    by (simp add: vec_scale_def field_eval_Cons)
  also have "\<dots> = GF2E_mul st (GF2E_mul st (field_eval st p x) s) x XOR GF2E_mul st c s"
    by (simp only: IH)
  also have "\<dots> = GF2E_mul st (GF2E_mul st (field_eval st p x) x) s XOR GF2E_mul st c s"
    by (simp only: GF2E_mul_swap [OF assms(1) E assms(3,2)])
  also have "\<dots> = GF2E_mul st (field_eval st (c # p) x) s"
    by (simp add: field_eval_Cons GF2E_mul_xor_left [OF assms(1)])
  finally show ?case .
qed

lemma length_poly_times_linear [simp]: "length (poly_times_linear st p r) = Suc (length p)"
  by (simp add: poly_times_linear_def)

lemma poly_times_linear_nth:
  assumes "t \<le> length p"
  shows "poly_times_linear st p r ! t
    = (if t = 0 then 0 else p ! (t - 1)) XOR (if t < length p then GF2E_mul st (p ! t) r else 0)"
proof -
  have "poly_times_linear st p r ! t
      = GF2E_sub ((0 # p) ! t) ((map (\<lambda>c. GF2E_mul st c r) p @ [0]) ! t)"
    using assms by (simp add: poly_times_linear_def)
  also have "(0 # p) ! t = (if t = 0 then 0 else p ! (t - 1))"
    by (cases t) simp_all
  also have "(map (\<lambda>c. GF2E_mul st c r) p @ [0]) ! t
      = (if t < length p then GF2E_mul st (p ! t) r else 0)"
    using assms by (simp add: nth_append)
  finally show ?thesis by (simp add: GF2E_sub_def)
qed

lemma poly_times_linear_valid:
  assumes "exact_config lam st" "GF2E_valid st r" "\<forall>c\<in>set p. GF2E_valid st c"
  shows "\<forall>c\<in>set (poly_times_linear st p r). GF2E_valid st c"
proof -
  have "GF2E_valid st (poly_times_linear st p r ! t)" if "t < Suc (length p)" for t
  proof -
    from that have t: "t \<le> length p" by simp
    have 1: "GF2E_valid st (if t = 0 then 0 else p ! (t - 1))"
      using assms(3) t by (cases t) simp_all
    have 2: "GF2E_valid st (if t < length p then GF2E_mul st (p ! t) r else 0)"
      using assms by (simp add: GF2E_mul_valid)
    show ?thesis
      unfolding poly_times_linear_nth [OF t] using 1 2 by (rule GF2E_valid_xor)
  qed
  then show ?thesis
    by (simp add: all_set_conv_all_nth)
qed

lemma eval_shift_sub:
  assumes "exact_config lam st" "GF2E_valid st x" "GF2E_valid st r"
  shows "\<forall>c\<in>set p. GF2E_valid st c \<Longrightarrow>
    field_eval st (map2 GF2E_sub (a # p) (map (\<lambda>c. GF2E_mul st c r) p @ [0])) x
      = a XOR GF2E_mul st (field_eval st p x) (x XOR r)"
proof (induction p arbitrary: a)
  case Nil
  show ?case by (simp add: field_eval_Cons GF2E_sub_def)
next
  case (Cons c p)
  then have p: "\<forall>c\<in>set p. GF2E_valid st c" and c: "GF2E_valid st c"
    by simp_all
  have E: "GF2E_valid st (field_eval st p x)"
    using assms(1,2) p by (rule field_eval_valid)
  have xr: "GF2E_valid st (x XOR r)"
    using assms(2,3) by (rule GF2E_valid_xor)
  have "field_eval st (map2 GF2E_sub (a # c # p) (map (\<lambda>c. GF2E_mul st c r) (c # p) @ [0])) x
      = GF2E_mul st
          (field_eval st (map2 GF2E_sub (c # p) (map (\<lambda>c. GF2E_mul st c r) p @ [0])) x) x
        XOR (a XOR GF2E_mul st c r)"
    by (simp add: field_eval_Cons GF2E_sub_def)
  also have "\<dots> = GF2E_mul st (c XOR GF2E_mul st (field_eval st p x) (x XOR r)) x
        XOR (a XOR GF2E_mul st c r)"
    by (simp only: Cons.IH [OF p])
  also have "\<dots> = (GF2E_mul st c x XOR GF2E_mul st (GF2E_mul st (field_eval st p x) (x XOR r)) x)
        XOR (a XOR GF2E_mul st c r)"
    by (simp only: GF2E_mul_xor_left [OF assms(1)])
  also have "GF2E_mul st (GF2E_mul st (field_eval st p x) (x XOR r)) x
      = GF2E_mul st (GF2E_mul st (field_eval st p x) x) (x XOR r)"
    using assms(1) E xr assms(2) by (rule GF2E_mul_swap)
  finally have lhs: "field_eval st
        (map2 GF2E_sub (a # c # p) (map (\<lambda>c. GF2E_mul st c r) (c # p) @ [0])) x
      = (GF2E_mul st c x XOR GF2E_mul st (GF2E_mul st (field_eval st p x) x) (x XOR r))
        XOR (a XOR GF2E_mul st c r)" .
  have "a XOR GF2E_mul st (field_eval st (c # p) x) (x XOR r)
      = a XOR (GF2E_mul st (GF2E_mul st (field_eval st p x) x) (x XOR r)
          XOR (GF2E_mul st c x XOR GF2E_mul st c r))"
    by (simp add: field_eval_Cons GF2E_mul_xor_left [OF assms(1)] GF2E_mul_xor_right [OF assms(1)]
        xor.assoc xor.commute xor.left_commute)
  with lhs show ?case
    by (simp add: GF2E_mul_xor_right [OF assms(1)] xor.assoc xor.commute xor.left_commute)
qed

lemma field_eval_poly_times_linear:
  assumes "exact_config lam st" "GF2E_valid st x" "GF2E_valid st r"
    and "\<forall>c\<in>set p. GF2E_valid st c"
  shows "field_eval st (poly_times_linear st p r) x
    = GF2E_mul st (field_eval st p x) (x XOR r)"
  unfolding poly_times_linear_def
  using eval_shift_sub [OF assms(1-3) assms(4), of 0] by simp

lemma fold_poly_times_linear_valid:
  assumes "exact_config lam st"
  shows "\<forall>r\<in>set roots. GF2E_valid st r \<Longrightarrow> \<forall>c\<in>set p. GF2E_valid st c \<Longrightarrow>
    \<forall>c\<in>set (fold (\<lambda>r p. poly_times_linear st p r) roots p). GF2E_valid st c"
proof (induction roots arbitrary: p)
  case Nil
  then show ?case by simp
next
  case (Cons r roots)
  from Cons.prems have r: "GF2E_valid st r" and roots: "\<forall>r\<in>set roots. GF2E_valid st r"
    by simp_all
  have "\<forall>c\<in>set (poly_times_linear st p r). GF2E_valid st c"
    using assms r Cons.prems(2) by (rule poly_times_linear_valid)
  with roots have "\<forall>c\<in>set (fold (\<lambda>r p. poly_times_linear st p r) roots
      (poly_times_linear st p r)). GF2E_valid st c"
    by (rule Cons.IH)
  then show ?case by simp
qed

lemma product_of_linear_factors_valid:
  assumes "exact_config lam st" "\<forall>r\<in>set roots. GF2E_valid st r"
  shows "\<forall>c\<in>set (product_of_linear_factors st roots). GF2E_valid st c"
  unfolding product_of_linear_factors_def
  by (rule fold_poly_times_linear_valid [OF assms]) (simp add: GF2E_valid_one [OF assms(1)])

lemma length_fold_poly_times_linear:
  "length (fold (\<lambda>r p. poly_times_linear st p r) roots p) = length roots + length p"
  by (induction roots arbitrary: p) simp_all

lemma length_product_of_linear_factors [simp]:
  "length (product_of_linear_factors st roots) = Suc (length roots)"
  by (simp add: product_of_linear_factors_def length_fold_poly_times_linear)

lemma field_eval_fold_poly_times_linear:
  assumes "exact_config lam st" "GF2E_valid st x"
  shows "\<forall>r\<in>set roots. GF2E_valid st r \<Longrightarrow> \<forall>c\<in>set p. GF2E_valid st c \<Longrightarrow>
    field_eval st (fold (\<lambda>r p. poly_times_linear st p r) roots p) x
      = fold (\<lambda>r acc. GF2E_mul st acc (x XOR r)) roots (field_eval st p x)"
proof (induction roots arbitrary: p)
  case Nil
  show ?case by simp
next
  case (Cons r roots)
  from Cons.prems have r: "GF2E_valid st r" and roots: "\<forall>r\<in>set roots. GF2E_valid st r"
    by simp_all
  have v: "\<forall>c\<in>set (poly_times_linear st p r). GF2E_valid st c"
    using assms(1) r Cons.prems(2) by (rule poly_times_linear_valid)
  have "field_eval st (poly_times_linear st p r) x = GF2E_mul st (field_eval st p x) (x XOR r)"
    using assms r Cons.prems(2) by (rule field_eval_poly_times_linear)
  with Cons.IH [OF roots v] show ?case
    by simp
qed

lemma field_eval_product:
  assumes "exact_config lam st" "GF2E_valid st x" "\<forall>r\<in>set roots. GF2E_valid st r"
  shows "field_eval st (product_of_linear_factors st roots) x
    = fold (\<lambda>r acc. GF2E_mul st acc (x XOR r)) roots 1"
proof -
  have one: "\<forall>c\<in>set [1]. GF2E_valid st c"
    by (simp add: GF2E_valid_one [OF assms(1)])
  have "field_eval st [1] x = 1"
    by (simp add: field_eval_Cons)
  with field_eval_fold_poly_times_linear [OF assms(1,2) assms(3) one] show ?thesis
    by (simp add: product_of_linear_factors_def)
qed

lemma fold_mul_zero [simp]: "fold (\<lambda>r acc. GF2E_mul st acc (x XOR r)) roots 0 = 0"
  by (induction roots) simp_all

lemma fold_mul_root:
  "x \<in> set roots \<Longrightarrow> fold (\<lambda>r acc. GF2E_mul st acc (x XOR r)) roots a = 0"
  by (induction roots arbitrary: a) auto

lemma last_poly_times_linear:
  assumes "p \<noteq> []"
  shows "last (poly_times_linear st p r) = last p"
proof -
  have "last (poly_times_linear st p r) = poly_times_linear st p r ! length p"
    by (simp add: last_conv_nth poly_times_linear_def)
  also have "\<dots> = p ! (length p - 1)"
    using assms by (simp add: poly_times_linear_nth)
  also have "\<dots> = last p"
    using assms by (simp add: last_conv_nth)
  finally show ?thesis .
qed

lemma last_fold_poly_times_linear:
  "p \<noteq> [] \<Longrightarrow> last (fold (\<lambda>r p. poly_times_linear st p r) roots p) = last p"
proof (induction roots arbitrary: p)
  case Nil
  show ?case by simp
next
  case (Cons r roots)
  have "poly_times_linear st p r \<noteq> []"
    by (simp add: poly_times_linear_def)
  with Cons show ?case
    by (simp add: last_poly_times_linear)
qed

lemma last_product_of_linear_factors [simp]: "last (product_of_linear_factors st roots) = 1"
  by (simp add: product_of_linear_factors_def last_fold_poly_times_linear)

section \<open>The in-place loops of \<open>build_from_roots\<close>\<close>

text \<open>One pass of the outer loop, for the root at index \<open>k\<close>.\<close>

definition bfr_step :: "gf2e_static \<Rightarrow> nat \<Rightarrow> GF2E list \<Rightarrow> GF2E list" where
  "bfr_step st k poly =
     (let tmp = poly ! k;
          poly1 = poly[k := GF2E_add tmp (poly ! (k - 1))];
          poly2 = bfr_inner st tmp (k - 1) poly1
      in poly2[0 := GF2E_mul st (poly2 ! 0) tmp])"

lemma bfr_outer_unfold:
  "bfr_outer st len k poly
     = (if k < len then bfr_outer st len (Suc k) (bfr_step st k poly) else poly)"
  by (simp add: bfr_outer.simps [of st len k poly] bfr_step_def Let_def)

lemma length_bfr_inner [simp]: "length (bfr_inner st tmp j poly) = length poly"
  by (induction j arbitrary: poly) simp_all

lemma bfr_inner_nth:
  "j < length poly \<Longrightarrow>
   bfr_inner st tmp j poly ! t
     = (if 1 \<le> t \<and> t \<le> j then GF2E_mul st (poly ! t) tmp XOR poly ! (t - 1) else poly ! t)"
proof (induction j arbitrary: poly)
  case 0
  show ?case by auto
next
  case (Suc j)
  define v where "v = GF2E_add (GF2E_mul st (poly ! Suc j) tmp) (poly ! j)"
  define poly' where "poly' = poly[Suc j := v]"
  have unfold: "bfr_inner st tmp (Suc j) poly = bfr_inner st tmp j poly'"
    by (simp add: poly'_def v_def)
  have "j < length poly'"
    using Suc.prems by (simp add: poly'_def)
  then have IH: "bfr_inner st tmp j poly' ! t
      = (if 1 \<le> t \<and> t \<le> j then GF2E_mul st (poly' ! t) tmp XOR poly' ! (t - 1) else poly' ! t)"
    by (rule Suc.IH)
  show ?case
  proof (cases "t = Suc j")
    case True
    with Suc.prems show ?thesis
      unfolding unfold IH by (simp add: poly'_def v_def GF2E_add_def)
  next
    case False
    show ?thesis
    proof (cases "1 \<le> t \<and> t \<le> j")
      case True
      then have "t \<noteq> Suc j" "t - 1 \<noteq> Suc j" by arith+
      with True show ?thesis
        unfolding unfold IH by (simp add: poly'_def)
    next
      case outside: False
      with False have n: "\<not> (1 \<le> t \<and> t \<le> Suc j)" by auto
      from False show ?thesis
        unfolding unfold IH if_not_P [OF outside] if_not_P [OF n] by (simp add: poly'_def)
    qed
  qed
qed

lemma length_bfr_step [simp]: "length (bfr_step st k poly) = length poly"
  by (simp add: bfr_step_def Let_def)

lemma bfr_step_nth:
  assumes "1 \<le> k" "k < length poly"
  shows "bfr_step st k poly ! t
    = (if t = 0 then GF2E_mul st (poly ! 0) (poly ! k)
       else if t < k then GF2E_mul st (poly ! t) (poly ! k) XOR poly ! (t - 1)
       else if t = k then poly ! k XOR poly ! (k - 1)
       else poly ! t)"
proof -
  define tmp where "tmp = poly ! k"
  define poly1 where "poly1 = poly[k := GF2E_add tmp (poly ! (k - 1))]"
  define poly2 where "poly2 = bfr_inner st tmp (k - 1) poly1"
  have step: "bfr_step st k poly = poly2[0 := GF2E_mul st (poly2 ! 0) tmp]"
    by (simp add: bfr_step_def Let_def poly2_def poly1_def tmp_def)
  have len1: "k - 1 < length poly1"
    using assms by (simp add: poly1_def)
  have poly2: "poly2 ! i
      = (if 1 \<le> i \<and> i \<le> k - 1 then GF2E_mul st (poly1 ! i) tmp XOR poly1 ! (i - 1)
         else poly1 ! i)" for i
    unfolding poly2_def using len1 by (rule bfr_inner_nth)
  have poly1_low: "poly1 ! i = poly ! i" if "i < k" for i
    using that by (simp add: poly1_def)
  have poly1_k: "poly1 ! k = tmp XOR poly ! (k - 1)"
    using assms(2) by (simp add: poly1_def GF2E_add_def)
  have poly1_high: "poly1 ! i = poly ! i" if "k < i" for i
    using that by (simp add: poly1_def)
  have "0 < length poly"
    using assms(2) by (cases poly) simp_all
  then have len2: "0 < length poly2"
    by (simp add: poly2_def poly1_def)
  show ?thesis
  proof (cases "t = 0")
    case True
    have "poly2 ! 0 = poly ! 0"
      using assms(1) by (simp add: poly2 poly1_low)
    with True len2 show ?thesis
      by (simp add: step tmp_def)
  next
    case False
    then have t: "bfr_step st k poly ! t = poly2 ! t"
      by (simp add: step)
    show ?thesis
    proof (cases "t < k")
      case True
      with False have "1 \<le> t \<and> t \<le> k - 1" "t - 1 < k" by simp_all
      with True False show ?thesis
        by (simp add: t poly2 poly1_low tmp_def)
    next
      case ge: False
      then have out: "\<not> (1 \<le> t \<and> t \<le> k - 1)" by arith
      show ?thesis
      proof (cases "t = k")
        case True
        show ?thesis
          unfolding t poly2 if_not_P [OF out] using True False ge
          by (simp add: poly1_k tmp_def)
      next
        case neq: False
        with ge have "k < t" by simp
        with False ge neq out show ?thesis
          by (simp add: t poly2 poly1_high)
      qed
    qed
  qed
qed

lemma nth_of_drop_eq:
  assumes "drop k xs = drop k ys" "k + i < length xs" "length xs = length ys"
  shows "xs ! (k + i) = ys ! (k + i)"
proof -
  have "xs ! (k + i) = drop k xs ! i"
    using assms(2) by simp
  also have "\<dots> = drop k ys ! i"
    by (simp only: assms(1))
  also have "\<dots> = ys ! (k + i)"
    using assms(2,3) by simp
  finally show ?thesis .
qed

lemma bfr_step_invariant:
  assumes c: "exact_config lam st"
    and valid: "\<forall>r\<in>set roots. GF2E_valid st r"
    and k: "1 \<le> k" "k < length roots"
    and len: "length poly = Suc (length roots)"
    and low: "take k poly @ [1] = product_of_linear_factors st (take k roots)"
    and high: "drop k poly = drop k (roots @ [0])"
  shows "take (Suc k) (bfr_step st k poly) @ [1]
           = product_of_linear_factors st (take (Suc k) roots)"
    and "drop (Suc k) (bfr_step st k poly) = drop (Suc k) (roots @ [0])"
proof -
  define r where "r = roots ! k"
  define cs where "cs = take k poly @ [1]"
  have kpoly: "k < length poly"
    using k(2) len by simp
  have "poly ! (k + 0) = (roots @ [0]) ! (k + 0)"
    by (rule nth_of_drop_eq [OF high]) (use kpoly len in simp_all)
  then have tmp: "poly ! k = r"
    using k(2) by (simp add: r_def nth_append)
  have rv: "GF2E_valid st r"
    unfolding r_def using valid k(2) by simp
  have one_r: "GF2E_mul st 1 r = r"
    using c rv by (rule GF2E_mul_one_left)
  have prod: "product_of_linear_factors st (take (Suc k) roots) = poly_times_linear st cs r"
    using k(2)
    by (simp add: product_of_linear_factors_def take_Suc_conv_app_nth cs_def r_def
        low [unfolded product_of_linear_factors_def])
  have lcs: "length cs = Suc k"
    using kpoly by (simp add: cs_def)
  have cs_low: "cs ! i = poly ! i" if "i < k" for i
    using that kpoly by (simp add: cs_def nth_append)
  have cs_k: "cs ! k = 1"
    using kpoly by (simp add: cs_def nth_append)
  have step: "bfr_step st k poly ! t
    = (if t = 0 then GF2E_mul st (poly ! 0) r
       else if t < k then GF2E_mul st (poly ! t) r XOR poly ! (t - 1)
       else if t = k then r XOR poly ! (k - 1)
       else poly ! t)" for t
    using bfr_step_nth [OF k(1) kpoly, of st t] by (simp only: tmp)
  show "take (Suc k) (bfr_step st k poly) @ [1]
      = product_of_linear_factors st (take (Suc k) roots)"
    unfolding prod
  proof (rule nth_equalityI)
    show "length (take (Suc k) (bfr_step st k poly) @ [1]) = length (poly_times_linear st cs r)"
      using kpoly by (simp add: lcs)
  next
    fix t
    assume "t < length (take (Suc k) (bfr_step st k poly) @ [1])"
    then have t: "t \<le> Suc k"
      using kpoly by simp
    then have tl: "t \<le> length cs"
      by (simp add: lcs)
    have ptl: "poly_times_linear st cs r ! t
        = (if t = 0 then 0 else cs ! (t - 1)) XOR (if t < Suc k then GF2E_mul st (cs ! t) r else 0)"
      using poly_times_linear_nth [OF tl, of st r] by (simp only: lcs)
    have lhs: "(take (Suc k) (bfr_step st k poly) @ [1]) ! t
        = (if t < Suc k then bfr_step st k poly ! t else 1)"
      using t kpoly by (auto simp add: nth_append)
    consider "t = 0" | "0 < t" "t < k" | "t = k" | "t = Suc k"
      using t by linarith
    then show "(take (Suc k) (bfr_step st k poly) @ [1]) ! t = poly_times_linear st cs r ! t"
    proof cases
      case 1
      with k(1) show ?thesis
        unfolding ptl lhs step by (simp add: cs_low)
    next
      case 2
      then have "t - 1 < k" by simp
      with 2 show ?thesis
        unfolding ptl lhs step by (simp add: cs_low xor.commute)
    next
      case 3
      then have "t - 1 < k" using k(1) by simp
      with 3 k(1) show ?thesis
        unfolding ptl lhs step by (simp add: cs_low cs_k one_r xor.commute)
    next
      case 4
      then show ?thesis
        unfolding ptl lhs step by (simp add: cs_k)
    qed
  qed
  show "drop (Suc k) (bfr_step st k poly) = drop (Suc k) (roots @ [0])"
  proof (rule nth_equalityI)
    show "length (drop (Suc k) (bfr_step st k poly)) = length (drop (Suc k) (roots @ [0]))"
      using len by simp
  next
    fix i
    assume "i < length (drop (Suc k) (bfr_step st k poly))"
    then have i: "Suc k + i < length poly"
      by simp
    then have "k + Suc i < length poly" by simp
    with high have "poly ! (k + Suc i) = (roots @ [0]) ! (k + Suc i)"
      by (rule nth_of_drop_eq) (use len in simp)
    then have "poly ! (Suc k + i) = (roots @ [0]) ! (Suc k + i)"
      by simp
    moreover have "bfr_step st k poly ! (Suc k + i) = poly ! (Suc k + i)"
      by (simp add: step)
    moreover have "drop (Suc k) (bfr_step st k poly) ! i = bfr_step st k poly ! (Suc k + i)"
      by (rule nth_drop) (use i in simp)
    moreover have "drop (Suc k) (roots @ [0]) ! i = (roots @ [0]) ! (Suc k + i)"
      by (rule nth_drop) (use i len in simp)
    ultimately show "drop (Suc k) (bfr_step st k poly) ! i = drop (Suc k) (roots @ [0]) ! i"
      by (simp only:)
  qed
qed

lemma bfr_outer_invariant:
  assumes c: "exact_config lam st"
    and valid: "\<forall>r\<in>set roots. GF2E_valid st r"
    and len: "len = length roots"
  shows "1 \<le> k \<Longrightarrow> k \<le> len \<Longrightarrow> length poly = Suc len \<Longrightarrow>
    take k poly @ [1] = product_of_linear_factors st (take k roots) \<Longrightarrow>
    drop k poly = drop k (roots @ [0]) \<Longrightarrow>
    take len (bfr_outer st len k poly) @ [1] = product_of_linear_factors st roots
      \<and> length (bfr_outer st len k poly) = Suc len"
proof (induction n \<equiv> "len - k" arbitrary: k poly)
  case 0
  then have k: "k = len" by simp
  have "bfr_outer st len len poly = poly"
    by (simp add: bfr_outer_unfold [of st len len poly])
  with k have "bfr_outer st len k poly = poly"
    by simp
  moreover have "take k roots = roots"
    using k len by simp
  ultimately show ?case
    using "0.prems"(3,4) k by simp
next
  case (Suc n)
  from Suc.hyps(2) have lt: "k < len" by simp
  then have k: "k < length roots"
    using len by simp
  have lp: "length poly = Suc (length roots)"
    using Suc.prems(3) len by simp
  note inv = bfr_step_invariant [OF c valid Suc.prems(1) k lp Suc.prems(4,5)]
  have "take len (bfr_outer st len (Suc k) (bfr_step st k poly)) @ [1]
        = product_of_linear_factors st roots
      \<and> length (bfr_outer st len (Suc k) (bfr_step st k poly)) = Suc len"
  proof (rule Suc.hyps(1))
    show "n = len - Suc k" using Suc.hyps(2) by simp
    show "1 \<le> Suc k" by simp
    show "Suc k \<le> len" using lt by simp
    show "length (bfr_step st k poly) = Suc len" using Suc.prems(3) by simp
    show "take (Suc k) (bfr_step st k poly) @ [1]
        = product_of_linear_factors st (take (Suc k) roots)"
      by (rule inv(1))
    show "drop (Suc k) (bfr_step st k poly) = drop (Suc k) (roots @ [0])"
      by (rule inv(2))
  qed
  with lt show ?case
    by (simp add: bfr_outer_unfold [of st len k poly])
qed

lemma build_from_roots_eq_product:
  assumes c: "exact_config lam st"
    and valid: "\<forall>r\<in>set roots. GF2E_valid st r"
  shows "build_from_roots st roots = product_of_linear_factors st roots"
proof (cases roots)
  case Nil
  then show ?thesis
    by (simp add: build_from_roots_def bfr_outer_unfold product_of_linear_factors_def)
next
  case (Cons r0 rest)
  define len where "len = length roots"
  define poly where "poly = roots @ [0]"
  define P where "P = bfr_outer st len 1 poly"
  have r0: "GF2E_valid st r0"
    using valid Cons by simp
  have first: "take 1 poly @ [1] = product_of_linear_factors st (take 1 roots)"
    using GF2E_mul_one_left [OF c r0]
    by (simp add: poly_def Cons product_of_linear_factors_def poly_times_linear_def GF2E_sub_def)
  have "take len P @ [1] = product_of_linear_factors st roots \<and> length P = Suc len"
    unfolding P_def
  proof (rule bfr_outer_invariant [OF c valid len_def _ _ _ first])
    show "1 \<le> (1::nat)" by simp
    show "1 \<le> len" by (simp add: len_def Cons)
    show "length poly = Suc len" by (simp add: poly_def len_def)
    show "drop 1 poly = drop 1 (roots @ [0])" by (simp add: poly_def)
  qed
  then have take: "take len P @ [1] = product_of_linear_factors st roots"
    and lenP: "length P = Suc len"
    by simp_all
  have "build_from_roots st roots = P[len := 1]"
    by (simp add: build_from_roots_def Let_def P_def poly_def len_def)
  also have "\<dots> = take len P @ [1]"
    using lenP by (simp add: upd_conv_take_nth_drop)
  finally show ?thesis
    by (simp only: take)
qed

section \<open>Lagrange basis and interpolation\<close>

text \<open>The points other than the \<open>k\<close>-th, in their order.\<close>

definition points_except :: "GF2E list \<Rightarrow> nat \<Rightarrow> GF2E list" where
  "points_except xs k = map ((!) xs) (filter (\<lambda>j. k \<noteq> j) [0..<length xs])"

lemma lagrange_inner_fold:
  "fold (\<lambda>j (denominator, x_except_k).
           if k \<noteq> j
           then (GF2E_mul st denominator (GF2E_sub xk (xs ! j)), x_except_k @ [xs ! j])
           else (denominator, x_except_k)) js (d, xe)
   = (fold (\<lambda>r acc. GF2E_mul st acc (xk XOR r)) (map ((!) xs) (filter (\<lambda>j. k \<noteq> j) js)) d,
      xe @ map ((!) xs) (filter (\<lambda>j. k \<noteq> j) js))"
  by (induction js arbitrary: d xe) (auto simp add: GF2E_sub_def)

lemma lagrange_inner_eq:
  "lagrange_inner st xs k
     = (fold (\<lambda>r acc. GF2E_mul st acc (xs ! k XOR r)) (points_except xs k) 1,
        points_except xs k)"
  by (simp add: lagrange_inner_def lagrange_inner_fold points_except_def)

lemma filter_neq_upt:
  assumes "k < m"
  shows "filter (\<lambda>j. k \<noteq> j) [0..<m] = [0..<k] @ [Suc k..<m]"
proof -
  have "[0..<m] = [0..<k] @ k # [Suc k..<m]"
    using assms by (metis less_imp_le_nat upt_add_eq_append upt_conv_Cons le0 le_add_diff_inverse)
  moreover have "filter (\<lambda>j. k \<noteq> j) [0..<k] = [0..<k]"
    by (rule filter_True) auto
  moreover have "filter (\<lambda>j. k \<noteq> j) [Suc k..<m] = [Suc k..<m]"
    by (rule filter_True) auto
  ultimately show ?thesis by simp
qed

lemma length_points_except:
  "k < length xs \<Longrightarrow> length (points_except xs k) = length xs - 1"
  by (simp add: points_except_def filter_neq_upt)

lemma points_except_valid:
  "\<forall>x\<in>set xs. GF2E_valid st x \<Longrightarrow> \<forall>x\<in>set (points_except xs k). GF2E_valid st x"
  by (auto simp add: points_except_def)

lemma other_point_in_points_except:
  "i < length xs \<Longrightarrow> i \<noteq> k \<Longrightarrow> xs ! i \<in> set (points_except xs k)"
  by (auto simp add: points_except_def)

text \<open>The \<open>k\<close>-th basis polynomial, as \<open>precompute_lagrange_polynomials\<close> stores it.\<close>

lemma precompute_nth:
  assumes "k < length xs"
  shows "precompute_lagrange_polynomials st ntl_inv xs ! k
    = vec_scale st (build_from_roots st (points_except xs k))
        (ntl_inv (fst (lagrange_inner st xs k)))"
  using assms by (simp add: precompute_lagrange_polynomials_def lagrange_inner_eq)

lemma length_precompute [simp]:
  "length (precompute_lagrange_polynomials st ntl_inv xs) = length xs"
  by (simp add: precompute_lagrange_polynomials_def)

lemma field_eval_basis:
  assumes c: "exact_config lam st"
    and xs: "\<forall>x\<in>set xs. GF2E_valid st x"
    and k: "k < length xs" and i: "i < length xs"
    and inv: "GF2E_valid st (ntl_inv (fst (lagrange_inner st xs k)))"
  shows "field_eval st (precompute_lagrange_polynomials st ntl_inv xs ! k) (xs ! i)
    = GF2E_mul st
        (fold (\<lambda>r acc. GF2E_mul st acc (xs ! i XOR r)) (points_except xs k) 1)
        (ntl_inv (fst (lagrange_inner st xs k)))"
proof -
  have xi: "GF2E_valid st (xs ! i)"
    using xs i by simp
  have pe: "\<forall>x\<in>set (points_except xs k). GF2E_valid st x"
    using xs by (rule points_except_valid)
  have bfr: "build_from_roots st (points_except xs k)
      = product_of_linear_factors st (points_except xs k)"
    using c pe by (rule build_from_roots_eq_product)
  have coeffs: "\<forall>c\<in>set (build_from_roots st (points_except xs k)). GF2E_valid st c"
    unfolding bfr using c pe by (rule product_of_linear_factors_valid)
  have "field_eval st (precompute_lagrange_polynomials st ntl_inv xs ! k) (xs ! i)
      = GF2E_mul st (field_eval st (build_from_roots st (points_except xs k)) (xs ! i))
          (ntl_inv (fst (lagrange_inner st xs k)))"
    unfolding precompute_nth [OF k]
    using c xi inv coeffs by (rule field_eval_vec_scale)
  also have "field_eval st (build_from_roots st (points_except xs k)) (xs ! i)
      = fold (\<lambda>r acc. GF2E_mul st acc (xs ! i XOR r)) (points_except xs k) 1"
    unfolding bfr using c xi pe by (rule field_eval_product)
  finally show ?thesis .
qed

lemma basis_valid:
  assumes c: "exact_config lam st"
    and xs: "\<forall>x\<in>set xs. GF2E_valid st x"
    and k: "k < length xs"
    and inv: "GF2E_valid st (ntl_inv (fst (lagrange_inner st xs k)))"
  shows "\<forall>c\<in>set (precompute_lagrange_polynomials st ntl_inv xs ! k). GF2E_valid st c"
proof -
  have pe: "\<forall>x\<in>set (points_except xs k). GF2E_valid st x"
    using xs by (rule points_except_valid)
  have bfr: "build_from_roots st (points_except xs k)
      = product_of_linear_factors st (points_except xs k)"
    using c pe by (rule build_from_roots_eq_product)
  have coeffs: "\<forall>c\<in>set (build_from_roots st (points_except xs k)). GF2E_valid st c"
    unfolding bfr using c pe by (rule product_of_linear_factors_valid)
  show ?thesis
    unfolding precompute_nth [OF k] vec_scale_def
    using coeffs inv c by (auto simp add: GF2E_mul_valid)
qed

lemma length_basis:
  assumes c: "exact_config lam st"
    and xs: "\<forall>x\<in>set xs. GF2E_valid st x"
    and k: "k < length xs"
  shows "length (precompute_lagrange_polynomials st ntl_inv xs ! k) = length xs"
proof -
  have pe: "\<forall>x\<in>set (points_except xs k). GF2E_valid st x"
    using xs by (rule points_except_valid)
  have bfr: "build_from_roots st (points_except xs k)
      = product_of_linear_factors st (points_except xs k)"
    using c pe by (rule build_from_roots_eq_product)
  show ?thesis
    unfolding precompute_nth [OF k] using k
    by (simp add: bfr length_points_except)
qed

text \<open>
  The term the \<open>j\<close>-th basis polynomial contributes at the \<open>i\<close>-th point: \<open>y\<^sub>i\<close> for
  \<open>j = i\<close>, nothing otherwise.
\<close>

lemma term_at_point:
  assumes c: "exact_config lam st"
    and xs: "\<forall>x\<in>set xs. GF2E_valid st x"
    and ys: "\<forall>y\<in>set ys. GF2E_valid st y" and len: "length ys = length xs"
    and j: "j < length xs" and i: "i < length xs"
    and inv: "GF2E_valid st (ntl_inv (fst (lagrange_inner st xs j)))"
    and inv_i: "GF2E_mul st (fst (lagrange_inner st xs i)) (ntl_inv (fst (lagrange_inner st xs i))) = 1"
  shows "field_eval st
           (vec_scale st (precompute_lagrange_polynomials st ntl_inv xs ! j) (ys ! j)) (xs ! i)
    = (if j = i then ys ! i else 0)"
proof -
  have xi: "GF2E_valid st (xs ! i)"
    using xs i by simp
  have yj: "GF2E_valid st (ys ! j)"
    using ys j len by simp
  have "field_eval st
          (vec_scale st (precompute_lagrange_polynomials st ntl_inv xs ! j) (ys ! j)) (xs ! i)
      = GF2E_mul st (field_eval st (precompute_lagrange_polynomials st ntl_inv xs ! j) (xs ! i))
          (ys ! j)"
    using c xi yj basis_valid [where ntl_inv = ntl_inv, OF c xs j inv]
    by (rule field_eval_vec_scale)
  also have "field_eval st (precompute_lagrange_polynomials st ntl_inv xs ! j) (xs ! i)
      = GF2E_mul st
          (fold (\<lambda>r acc. GF2E_mul st acc (xs ! i XOR r)) (points_except xs j) 1)
          (ntl_inv (fst (lagrange_inner st xs j)))"
    using c xs j i inv by (rule field_eval_basis [where ntl_inv = ntl_inv])
  finally have eq: "field_eval st
          (vec_scale st (precompute_lagrange_polynomials st ntl_inv xs ! j) (ys ! j)) (xs ! i)
      = GF2E_mul st
          (GF2E_mul st
            (fold (\<lambda>r acc. GF2E_mul st acc (xs ! i XOR r)) (points_except xs j) 1)
            (ntl_inv (fst (lagrange_inner st xs j))))
          (ys ! j)" .
  show ?thesis
  proof (cases "j = i")
    case True
    have "fold (\<lambda>r acc. GF2E_mul st acc (xs ! i XOR r)) (points_except xs i) 1
        = fst (lagrange_inner st xs i)"
      by (simp add: lagrange_inner_eq)
    with eq True inv_i have "field_eval st
          (vec_scale st (precompute_lagrange_polynomials st ntl_inv xs ! j) (ys ! j)) (xs ! i)
        = GF2E_mul st 1 (ys ! i)"
      by simp
    also have "\<dots> = ys ! i"
      using c yj True by (simp add: GF2E_mul_one_left)
    finally show ?thesis using True by simp
  next
    case False
    then have "xs ! i \<in> set (points_except xs j)"
      using i by (simp add: other_point_in_points_except)
    then have "fold (\<lambda>r acc. GF2E_mul st acc (xs ! i XOR r)) (points_except xs j) 1 = 0"
      by (rule fold_mul_root)
    with eq False show ?thesis by simp
  qed
qed

lemma interp_loop_eval:
  assumes c: "exact_config lam st"
    and H: "\<forall>j. j < length ys \<longrightarrow>
      field_eval st (vec_scale st (pre ! j) (ys ! j)) x = (if j = i then v else 0)"
  shows "interp_loop st pre ys k res = Inr r \<Longrightarrow>
    field_eval st r x = field_eval st res x XOR (if k \<le> i \<and> i < length ys then v else 0)"
proof (induction n \<equiv> "length ys - k" arbitrary: k res)
  case 0
  then have "\<not> k < length ys" by simp
  with "0.prems" have "r = res"
    by (simp add: interp_loop.simps [of st pre ys k res])
  moreover from \<open>\<not> k < length ys\<close> have n: "\<not> (k \<le> i \<and> i < length ys)" by simp
  ultimately show ?case by (simp only: if_not_P [OF n]) simp
next
  case (Suc n)
  from Suc.hyps(2) have lt: "k < length ys" by simp
  define summand where "summand = vec_scale st (pre ! k) (ys ! k)"
  have same: "length res = length summand"
  proof (rule ccontr)
    assume "length res \<noteq> length summand"
    then have "interp_loop st pre ys k res = Inl SizeMismatch"
      using lt by (simp add: interp_loop.simps [of st pre ys k res] vec_add_assign_Inl summand_def)
    with Suc.prems show False by simp
  qed
  define res' where "res' = map2 GF2E_add res summand"
  have run: "interp_loop st pre ys (Suc k) res' = Inr r"
    using Suc.prems lt same
    by (simp add: interp_loop.simps [of st pre ys k res] vec_add_assign_Inr summand_def res'_def)
  have "n = length ys - Suc k"
    using Suc.hyps(2) by simp
  then have IH: "field_eval st r x
      = field_eval st res' x XOR (if Suc k \<le> i \<and> i < length ys then v else 0)"
    using run by (rule Suc.hyps(1))
  have "field_eval st res' x = field_eval st res x XOR field_eval st summand x"
    unfolding res'_def using c same by (rule field_eval_map2_add)
  also have "field_eval st summand x = (if k = i then v else 0)"
    unfolding summand_def using H lt by blast
  finally have res': "field_eval st res' x = field_eval st res x XOR (if k = i then v else 0)" .
  show ?case
  proof (cases "k = i")
    case True
    with lt IH res' show ?thesis by (simp add: xor.assoc)
  next
    case False
    then have "(k \<le> i \<and> i < length ys) = (Suc k \<le> i \<and> i < length ys)"
      by auto
    with False IH res' show ?thesis by simp
  qed
qed

lemma interpolation_at_points:
  assumes c: "exact_config lam st"
    and xs: "\<forall>x\<in>set xs. GF2E_valid st x" and ne: "xs \<noteq> []"
    and ys: "\<forall>y\<in>set ys. GF2E_valid st y" and len: "length ys = length xs"
    and inv: "\<forall>k<length xs.
      GF2E_valid st (ntl_inv (fst (lagrange_inner st xs k)))
      \<and> GF2E_mul st (fst (lagrange_inner st xs k)) (ntl_inv (fst (lagrange_inner st xs k))) = 1"
  shows "\<exists>p. interpolate_with_precomputation st (precompute_lagrange_polynomials st ntl_inv xs) ys
            = Inr p
          \<and> (\<forall>i<length xs. field_eval st p (xs ! i) = ys ! i)"
proof -
  define pre where "pre = precompute_lagrange_polynomials st ntl_inv xs"
  have lpre: "length pre = length ys"
    by (simp add: pre_def len)
  have ysne: "ys \<noteq> []"
    using ne len by auto
  have lens: "\<forall>p\<in>set pre. length p = length (pre ! 0)"
  proof -
    have "length (pre ! k) = length xs" if "k < length xs" for k
      unfolding pre_def using c xs that by (rule length_basis)
    then show ?thesis
      using ne by (simp add: all_set_conv_all_nth pre_def)
  qed
  from interpolate_succeeds [OF lpre ysne lens, of st]
  obtain p where p: "interpolate_with_precomputation st pre ys = Inr p"
    by blast
  then have loop: "interp_loop st pre ys 0 (replicate (length (pre ! 0)) 0) = Inr p"
    using lpre ysne by (simp add: interpolate_with_precomputation_def)
  have "field_eval st p (xs ! i) = ys ! i" if i: "i < length xs" for i
  proof -
    have H: "\<forall>j. j < length ys \<longrightarrow>
        field_eval st (vec_scale st (pre ! j) (ys ! j)) (xs ! i) = (if j = i then ys ! i else 0)"
    proof (intro allI impI)
      fix j
      assume "j < length ys"
      then have j: "j < length xs" using len by simp
      show "field_eval st (vec_scale st (pre ! j) (ys ! j)) (xs ! i) = (if j = i then ys ! i else 0)"
        unfolding pre_def
        by (rule term_at_point [where ntl_inv = ntl_inv, OF c xs ys len j i])
          (use inv i j in blast)+
    qed
    from interp_loop_eval [OF c H loop] i len show ?thesis
      by simp
  qed
  with p show ?thesis
    unfolding pre_def by blast
qed


section \<open>When the inverse parameter is the field inverse\<close>

text \<open>
  \<open>precompute_lagrange_polynomials\<close> hands each denominator to NTL's \<open>inv\<close>. If the
  parameter standing for it inverts every valid non-zero element, the multiplication has
  no zero divisors, the denominators formed from distinct points are non-zero, and the
  parameter does on them what the interpolation needs.
\<close>

definition field_inverse :: "gf2e_static \<Rightarrow> (GF2E \<Rightarrow> GF2E) \<Rightarrow> bool" where
  "field_inverse st ntl_inv \<longleftrightarrow>
     (\<forall>a. GF2E_valid st a \<and> a \<noteq> 0 \<longrightarrow>
        GF2E_valid st (ntl_inv a) \<and> GF2E_mul st a (ntl_inv a) = 1)"

lemma field_inverse_no_zero_divisors:
  assumes c: "exact_config lam st"
    and inv: "field_inverse st ntl_inv"
    and a: "GF2E_valid st a" and a0: "a \<noteq> 0"
    and b: "GF2E_valid st b" and b0: "b \<noteq> 0"
  shows "GF2E_mul st a b \<noteq> 0"
proof
  assume z: "GF2E_mul st a b = 0"
  from inv a a0 have ia: "GF2E_valid st (ntl_inv a)"
    and one: "GF2E_mul st a (ntl_inv a) = 1"
    by (simp_all add: field_inverse_def)
  have "b = GF2E_mul st 1 b"
    using c b by (rule GF2E_mul_one_left [symmetric])
  also have "\<dots> = GF2E_mul st (GF2E_mul st (ntl_inv a) a) b"
    by (simp only: one [symmetric] GF2E_mul_commute [of st "ntl_inv a" a])
  also have "\<dots> = GF2E_mul st (ntl_inv a) (GF2E_mul st a b)"
    using c ia a b by (rule GF2E_mul_assoc)
  also have "\<dots> = 0"
    by (simp only: z GF2E_mul_zero_right)
  finally show False
    using b0 by simp
qed

lemma fold_mul_nonzero:
  assumes c: "exact_config lam st"
    and inv: "field_inverse st ntl_inv"
    and x: "GF2E_valid st x"
  shows "\<forall>r\<in>set rs. GF2E_valid st r \<and> r \<noteq> x \<Longrightarrow> GF2E_valid st a \<Longrightarrow> a \<noteq> 0 \<Longrightarrow>
    GF2E_valid st (fold (\<lambda>r acc. GF2E_mul st acc (x XOR r)) rs a)
    \<and> fold (\<lambda>r acc. GF2E_mul st acc (x XOR r)) rs a \<noteq> 0"
proof (induction rs arbitrary: a)
  case Nil
  then show ?case by simp
next
  case (Cons r rs)
  from Cons.prems(1) have r: "GF2E_valid st r" and rx: "r \<noteq> x"
    and rest: "\<forall>r\<in>set rs. GF2E_valid st r \<and> r \<noteq> x"
    by simp_all
  have d: "GF2E_valid st (x XOR r)"
    using x r by (rule GF2E_valid_xor)
  have d0: "x XOR r \<noteq> 0"
  proof
    assume "x XOR r = 0"
    then have "x = r"
      by (metis bit.xor_left_self xor.right_neutral)
    with rx show False by simp
  qed
  have v: "GF2E_valid st (GF2E_mul st a (x XOR r))"
    using c Cons.prems(2) d by (rule GF2E_mul_valid)
  have n: "GF2E_mul st a (x XOR r) \<noteq> 0"
    using c inv Cons.prems(2,3) d d0 by (rule field_inverse_no_zero_divisors)
  from Cons.IH [OF rest v n] show ?case
    by simp
qed

lemma points_except_distinct:
  assumes "distinct xs" and "k < length xs"
  shows "\<forall>r\<in>set (points_except xs k). r \<noteq> xs ! k"
  using assms by (auto simp add: points_except_def nth_eq_iff_index_eq)

lemma field_inverse_inverts_denominators:
  assumes c: "exact_config lam st"
    and inv: "field_inverse st ntl_inv"
    and d: "distinct x_values"
    and xs: "\<forall>x\<in>set x_values. GF2E_valid st x"
  shows "\<forall>k<length x_values.
      GF2E_valid st (ntl_inv (fst (lagrange_inner st x_values k)))
      \<and> GF2E_mul st (fst (lagrange_inner st x_values k))
            (ntl_inv (fst (lagrange_inner st x_values k))) = 1"
proof (intro allI impI)
  fix k
  assume k: "k < length x_values"
  have xk: "GF2E_valid st (x_values ! k)"
    using xs k by simp
  have pe: "\<forall>r\<in>set (points_except x_values k). GF2E_valid st r \<and> r \<noteq> x_values ! k"
    using points_except_valid [OF xs, of k] points_except_distinct [OF d k] by blast
  have one: "GF2E_valid st 1"
    using c by (rule GF2E_valid_one)
  have "GF2E_valid st (fst (lagrange_inner st x_values k))
      \<and> fst (lagrange_inner st x_values k) \<noteq> 0"
    unfolding lagrange_inner_eq fst_conv
    using c inv xk pe one by (rule fold_mul_nonzero) simp
  with inv show "GF2E_valid st (ntl_inv (fst (lagrange_inner st x_values k)))
      \<and> GF2E_mul st (fst (lagrange_inner st x_values k))
            (ntl_inv (fst (lagrange_inner st x_values k))) = 1"
    by (simp add: field_inverse_def)
qed

text \<open>
  Interpolation with the field inverse: here the points have to be distinct, and nothing
  else is asked of the inverse.
\<close>

lemma interpolation_with_field_inverse:
  assumes "exact_config lam st"
    and "field_inverse st ntl_inv"
    and "x_values \<noteq> []"
    and "distinct x_values"
    and "\<forall>x\<in>set x_values. GF2E_valid st x"
    and "length y_values = length x_values"
    and "\<forall>y\<in>set y_values. GF2E_valid st y"
  shows "\<exists>p. interpolate_with_precomputation st
                (precompute_lagrange_polynomials st ntl_inv x_values) y_values = Inr p
          \<and> (\<forall>k<length x_values. field_eval st p (x_values ! k) = y_values ! k)"
proof -
  have "\<forall>k<length x_values.
      GF2E_valid st (ntl_inv (fst (lagrange_inner st x_values k)))
      \<and> GF2E_mul st (fst (lagrange_inner st x_values k))
            (ntl_inv (fst (lagrange_inner st x_values k))) = 1"
    using assms(1,2,4,5) by (rule field_inverse_inverts_denominators)
  with assms(1,5,3,7,6) show ?thesis
    by (rule interpolation_at_points)
qed

section \<open>Evaluating the program on concrete inputs\<close>

text \<open>
  The rewrite rules that compute a product of two numerals under each routine, and a
  certificate for a remainder: the quotient.
\<close>

lemma unat_minus_1_u64: "unat (- 1 :: u64) = 18446744073709551615"
  by (simp add: unsigned_minus_1_eq_mask mask_eq_exp_minus_1)

lemmas GF2E_mul_eval =
  GF2E_mul_def clmul_eq clmul_nat_numeral unat_minus_1_u64 Let_def mm_extract_epi64_def
  reduce_GF2_32_def reduce_GF2_40_def reduce_GF2_48_def P_GF2_32_def P_GF2_40_def P_GF2_48_def

lemma gf2_mod_P40:
  assumes "x = clmul_nat q P40 XOR r" and "r < 2 ^ 40"
  shows "gf2_mod x P40 = r"
proof -
  have "(2::nat) ^ 40 \<le> P40" and "P40 < 2 ^ Suc 40"
    by (simp_all add: P40_def)
  then show ?thesis
    using assms(2,1) by (rule gf2_mod_unique)
qed

lemma gf2_mod_P48:
  assumes "x = clmul_nat q P48 XOR r" and "r < 2 ^ 48"
  shows "gf2_mod x P48 = r"
proof -
  have "(2::nat) ^ 48 \<le> P48" and "P48 < 2 ^ Suc 48"
    by (simp_all add: P48_def)
  then show ?thesis
    using assms(2,1) by (rule gf2_mod_unique)
qed

section \<open>The powers of the generators\<close>

text \<open>
  The generators as numbers, and the seven values the loop of \<open>init_lifting_lut\<close>
  accumulates in \<^verbatim>\<open>pow\<close> under each routine, computed by the code's own multiplication.
\<close>

lemma gen_GF2_32_eq: "gen_GF2_32 = 0x40A46AFA"
  by (simp add: gen_GF2_32_def set_coeff_def)

lemma gen_GF2_40_eq: "gen_GF2_40 = 0xCA748254"
  by (simp add: gen_GF2_40_def set_coeff_def)

lemma gen_GF2_48_eq: "gen_GF2_48 = 0x293EF1396C8C"
  by (simp add: gen_GF2_48_def set_coeff_def)

lemma generator_powers_32:
  "map (GF2E_power \<lparr>reduce = Reduce_GF2_32, byte_size = 4\<rparr> gen_GF2_32) [0, 1, 2, 3, 4, 5, 6, 7]
     = [1, 0x40A46AFA, 0xC4652DFC, 0x7ECDA763,
        0x9C8BAD52, 0x3EA34653, 0x49AAA6A, 0x4C7D73FB]"
proof -
  define st where "st = \<lparr>reduce = Reduce_GF2_32, byte_size = 4\<rparr>"
  define g where "g = gen_GF2_32"
  have p1: "GF2E_power st g 1 = 0x40A46AFA"
    by (simp add: g_def gen_GF2_32_eq)
  have "GF2E_power st g 2 = GF2E_mul st (GF2E_power st g 1) g"
    by (simp add: eval_nat_numeral)
  then have p2: "GF2E_power st g 2 = 0xC4652DFC"
    unfolding p1 by (simp add: g_def gen_GF2_32_eq st_def GF2E_mul_eval)
  have "GF2E_power st g 3 = GF2E_mul st (GF2E_power st g 2) g"
    by (simp add: eval_nat_numeral)
  then have p3: "GF2E_power st g 3 = 0x7ECDA763"
    unfolding p2 by (simp add: g_def gen_GF2_32_eq st_def GF2E_mul_eval)
  have "GF2E_power st g 4 = GF2E_mul st (GF2E_power st g 3) g"
    by (simp add: eval_nat_numeral)
  then have p4: "GF2E_power st g 4 = 0x9C8BAD52"
    unfolding p3 by (simp add: g_def gen_GF2_32_eq st_def GF2E_mul_eval)
  have "GF2E_power st g 5 = GF2E_mul st (GF2E_power st g 4) g"
    by (simp add: eval_nat_numeral)
  then have p5: "GF2E_power st g 5 = 0x3EA34653"
    unfolding p4 by (simp add: g_def gen_GF2_32_eq st_def GF2E_mul_eval)
  have "GF2E_power st g 6 = GF2E_mul st (GF2E_power st g 5) g"
    by (simp add: eval_nat_numeral)
  then have p6: "GF2E_power st g 6 = 0x49AAA6A"
    unfolding p5 by (simp add: g_def gen_GF2_32_eq st_def GF2E_mul_eval)
  have "GF2E_power st g 7 = GF2E_mul st (GF2E_power st g 6) g"
    by (simp add: eval_nat_numeral)
  then have p7: "GF2E_power st g 7 = 0x4C7D73FB"
    unfolding p6 by (simp add: g_def gen_GF2_32_eq st_def GF2E_mul_eval)
  from p1 p2 p3 p4 p5 p6 p7 show ?thesis
    unfolding st_def g_def by simp
qed

lemma generator_powers_40:
  "map (GF2E_power \<lparr>reduce = Reduce_GF2_40, byte_size = 5\<rparr> gen_GF2_40) [0, 1, 2, 3, 4, 5, 6, 7]
     = [1, 0xCA748254, 0x104DDAB65D, 0x7D087F48A6,
        0xD58F0EEC93, 0x975CCF3672, 0xBF971BCAD2, 0x7EC56C46C]"
proof -
  define st where "st = \<lparr>reduce = Reduce_GF2_40, byte_size = 5\<rparr>"
  define g where "g = gen_GF2_40"
  have p1: "GF2E_power st g 1 = 0xCA748254"
    by (simp add: g_def gen_GF2_40_eq)
  have "GF2E_power st g 2 = GF2E_mul st (GF2E_power st g 1) g"
    by (simp add: eval_nat_numeral)
  then have p2: "GF2E_power st g 2 = 0x104DDAB65D"
    unfolding p1 by (simp add: g_def gen_GF2_40_eq st_def GF2E_mul_eval)
  have "GF2E_power st g 3 = GF2E_mul st (GF2E_power st g 2) g"
    by (simp add: eval_nat_numeral)
  then have p3: "GF2E_power st g 3 = 0x7D087F48A6"
    unfolding p2 by (simp add: g_def gen_GF2_40_eq st_def GF2E_mul_eval)
  have "GF2E_power st g 4 = GF2E_mul st (GF2E_power st g 3) g"
    by (simp add: eval_nat_numeral)
  then have p4: "GF2E_power st g 4 = 0xD58F0EEC93"
    unfolding p3 by (simp add: g_def gen_GF2_40_eq st_def GF2E_mul_eval)
  have "GF2E_power st g 5 = GF2E_mul st (GF2E_power st g 4) g"
    by (simp add: eval_nat_numeral)
  then have p5: "GF2E_power st g 5 = 0x975CCF3672"
    unfolding p4 by (simp add: g_def gen_GF2_40_eq st_def GF2E_mul_eval)
  have "GF2E_power st g 6 = GF2E_mul st (GF2E_power st g 5) g"
    by (simp add: eval_nat_numeral)
  then have p6: "GF2E_power st g 6 = 0xBF971BCAD2"
    unfolding p5 by (simp add: g_def gen_GF2_40_eq st_def GF2E_mul_eval)
  have "GF2E_power st g 7 = GF2E_mul st (GF2E_power st g 6) g"
    by (simp add: eval_nat_numeral)
  then have p7: "GF2E_power st g 7 = 0x7EC56C46C"
    unfolding p6 by (simp add: g_def gen_GF2_40_eq st_def GF2E_mul_eval)
  from p1 p2 p3 p4 p5 p6 p7 show ?thesis
    unfolding st_def g_def by simp
qed

lemma generator_powers_48:
  "map (GF2E_power \<lparr>reduce = Reduce_GF2_48, byte_size = 6\<rparr> gen_GF2_48) [0, 1, 2, 3, 4, 5, 6, 7]
     = [1, 0x293EF1396C8C, 0xBA2C847D497D, 0x2D9DBB0187BF,
        0x69A636A2569E, 0x466328D4FEBF, 0xD62A54CA8933, 0x32B634BC2F362]"
proof -
  define st where "st = \<lparr>reduce = Reduce_GF2_48, byte_size = 6\<rparr>"
  define g where "g = gen_GF2_48"
  have p1: "GF2E_power st g 1 = 0x293EF1396C8C"
    by (simp add: g_def gen_GF2_48_eq)
  have "GF2E_power st g 2 = GF2E_mul st (GF2E_power st g 1) g"
    by (simp add: eval_nat_numeral)
  then have p2: "GF2E_power st g 2 = 0xBA2C847D497D"
    unfolding p1 by (simp add: g_def gen_GF2_48_eq st_def GF2E_mul_eval)
  have "GF2E_power st g 3 = GF2E_mul st (GF2E_power st g 2) g"
    by (simp add: eval_nat_numeral)
  then have p3: "GF2E_power st g 3 = 0x2D9DBB0187BF"
    unfolding p2 by (simp add: g_def gen_GF2_48_eq st_def GF2E_mul_eval)
  have "GF2E_power st g 4 = GF2E_mul st (GF2E_power st g 3) g"
    by (simp add: eval_nat_numeral)
  then have p4: "GF2E_power st g 4 = 0x69A636A2569E"
    unfolding p3 by (simp add: g_def gen_GF2_48_eq st_def GF2E_mul_eval)
  have "GF2E_power st g 5 = GF2E_mul st (GF2E_power st g 4) g"
    by (simp add: eval_nat_numeral)
  then have p5: "GF2E_power st g 5 = 0x466328D4FEBF"
    unfolding p4 by (simp add: g_def gen_GF2_48_eq st_def GF2E_mul_eval)
  have "GF2E_power st g 6 = GF2E_mul st (GF2E_power st g 5) g"
    by (simp add: eval_nat_numeral)
  then have p6: "GF2E_power st g 6 = 0xD62A54CA8933"
    unfolding p5 by (simp add: g_def gen_GF2_48_eq st_def GF2E_mul_eval)
  have "GF2E_power st g 7 = GF2E_mul st (GF2E_power st g 6) g"
    by (simp add: eval_nat_numeral)
  then have p7: "GF2E_power st g 7 = 0x32B634BC2F362"
    unfolding p6 by (simp add: g_def gen_GF2_48_eq st_def GF2E_mul_eval)
  from p1 p2 p3 p4 p5 p6 p7 show ?thesis
    unfolding st_def g_def by simp
qed

lemma nth_first_eight: "b < 8 \<Longrightarrow> [0, 1, 2, 3, 4, 5, 6, 7] ! b = (b::nat)"
proof -
  assume "b < 8"
  then consider "b = 0" | "b = 1" | "b = 2" | "b = 3" | "b = 4" | "b = 5" | "b = 6" | "b = 7"
    by linarith
  then show ?thesis
    by cases simp_all
qed

text \<open>
  What \<open>init_lifting_lut\<close> leaves in a table of 256 entries, given the eight values of
  \<^verbatim>\<open>pow\<close>: entry 0 is 0 and entry \<open>2\<^sup>b + idx\<close> is entry \<open>idx\<close> plus the \<open>b\<close>-th value, for
  \<open>b\<close> from 0 to 7. Every entry is written; nothing of the old table remains.
\<close>

lemma rebuilt_table:
  assumes "length lut = 256"
    and "map (GF2E_power st g) [0, 1, 2, 3, 4, 5, 6, 7] = ps"
  shows "init_lifting_lut st g lut ! 0 = 0"
    and "b < 8 \<Longrightarrow> idx < 2 ^ b \<Longrightarrow>
      init_lifting_lut st g lut ! (2 ^ b + idx) = init_lifting_lut st g lut ! idx XOR ps ! b"
proof -
  show "init_lifting_lut st g lut ! 0 = 0"
    using assms(1) by (rule init_lifting_lut_spec(1))
  assume b: "b < 8" and idx: "idx < 2 ^ b"
  have "ps ! b = map (GF2E_power st g) [0, 1, 2, 3, 4, 5, 6, 7] ! b"
    by (simp only: assms(2))
  also have "\<dots> = GF2E_power st g ([0, 1, 2, 3, 4, 5, 6, 7] ! b)"
    by (rule nth_map) (use b in simp)
  also have "\<dots> = GF2E_power st g b"
    using b by (simp only: nth_first_eight)
  finally have "ps ! b = GF2E_power st g b" .
  then show "init_lifting_lut st g lut ! (2 ^ b + idx)
      = init_lifting_lut st g lut ! idx XOR ps ! b"
    using init_lifting_lut_spec(3) [OF assms(1) b idx, of st g] by simp
qed

section \<open>The powers of the generator in the field\<close>

text \<open>
  The power \<open>generator\<^sup>b\<close> the specification names in the doubling construction: a power
  in the field, each one the remainder of the last times the generator modulo the
  polynomial of the field. It is stated on bit patterns, apart from the code.
\<close>

primrec spec_generator_power :: "nat \<Rightarrow> nat \<Rightarrow> nat \<Rightarrow> nat" where
  "spec_generator_power p g 0 = 1"
| "spec_generator_power p g (Suc b) = gf2_mod (clmul_nat (spec_generator_power p g b) g) p"

lemma GF2E_power_valid:
  assumes "exact_config lam st" "GF2E_valid st g"
  shows "GF2E_valid st (GF2E_power st g n)"
proof (induction n)
  case 0
  show ?case
    using assms(1) by (simp add: GF2E_valid_one)
next
  case (Suc n)
  have "GF2E_valid st (GF2E_mul st (GF2E_power st g n) g)"
    using assms(1) Suc assms(2) by (rule GF2E_mul_valid)
  with assms(2) show ?case
    by simp
qed

text \<open>For \<open>lambda = 4\<close> the values the loop accumulates are these powers.\<close>

lemma GF2E_power_is_field_power:
  assumes c: "exact_config lam st" and g: "GF2E_valid st g"
  shows "unat (GF2E_power st g n) = spec_generator_power (field_modulus lam) (unat g) n"
proof (induction n)
  case 0
  show ?case by simp
next
  case (Suc n)
  show ?case
  proof (cases "n = 0")
    case True
    have "gf2_mod (unat g) (field_modulus lam) = unat g"
      using g field_modulus_bounds(1) [OF c] unfolding GF2E_valid_def by (rule gf2_mod_small)
    with True show ?thesis
      by simp
  next
    case False
    have "unat (GF2E_mul st (GF2E_power st g n) g)
        = gf2_mod (clmul_nat (unat (GF2E_power st g n)) (unat g)) (field_modulus lam)"
      using c GF2E_power_valid [OF c g] g by (rule GF2E_mul_unat)
    with False Suc show ?thesis
      by simp
  qed
qed

text \<open>
  The structure of the table, under every routine: entry 0 is 0, entry 1 is 1, entry
  \<open>2\<^sup>b + idx\<close> is entry \<open>idx\<close> plus the value the loop holds in \<^verbatim>\<open>pow\<close> at bit \<open>b\<close>, and
  lifting is additive.
\<close>

lemma lifting_table_structure:
  assumes "init_extension_field inst s = Inr s'"
    and "length (lifting_lut s) = 256"
  shows "lift_uint8_t (lifting_lut s') 0 = 0"
    and "lift_uint8_t (lifting_lut s') 1 = 1"
    and "b < 8 \<Longrightarrow> idx < 2 ^ b \<Longrightarrow>
           lifting_lut s' ! (2 ^ b + idx)
             = lifting_lut s' ! idx XOR GF2E_power (statics s') (field_generator (lambda inst)) b"
    and "GF2E_add (lift_uint8_t (lifting_lut s') p) (lift_uint8_t (lifting_lut s') q)
           = lift_uint8_t (lifting_lut s') (p XOR q)"
proof -
  define g where "g = field_generator (lambda inst)"
  define st where "st = statics s'"
  have T: "lifting_lut s' = init_lifting_lut st g (lifting_lut s)"
    unfolding g_def st_def using assms(1) by (rule init_extension_field_Inr(2))
  show "lift_uint8_t (lifting_lut s') 0 = 0"
    unfolding T using init_lifting_lut_spec(1) [OF assms(2), of st g]
    by (simp add: lift_uint8_t_def)
  show "lift_uint8_t (lifting_lut s') 1 = 1"
    unfolding T using init_lifting_lut_spec(2) [OF assms(2), of st g]
    by (simp add: lift_uint8_t_def)
  show "lifting_lut s' ! (2 ^ b + idx)
      = lifting_lut s' ! idx XOR GF2E_power (statics s') (field_generator (lambda inst)) b"
    if "b < 8" "idx < 2 ^ b"
    unfolding T using assms(2) that
    by (simp only: init_lifting_lut_spec(3) g_def st_def)
  show "GF2E_add (lift_uint8_t (lifting_lut s') p) (lift_uint8_t (lifting_lut s') q)
      = lift_uint8_t (lifting_lut s') (p XOR q)"
    unfolding T using assms(2) by (rule lift_additive)
qed

text \<open>For \<open>lambda = 4\<close> the table is the doubling construction on the powers in the field.\<close>

lemma lifting_table_lambda_4:
  assumes "init_extension_field inst s = Inr s'"
    and "lambda inst = 4"
    and "length (lifting_lut s) = 256"
    and "b < 8" "idx < 2 ^ b"
  shows "unat (lifting_lut s' ! (2 ^ b + idx))
      = unat (lifting_lut s' ! idx) XOR spec_generator_power P32 (unat gen_GF2_32) b"
proof -
  from assms(1,2) have st: "statics s' = \<lparr>reduce = Reduce_GF2_32, byte_size = 4\<rparr>"
    by (auto simp add: init_extension_field_def Let_def)
  then have c: "exact_config 4 (statics s')"
    by (simp add: exact_config_def)
  have g: "GF2E_valid (statics s') gen_GF2_32"
    by (simp add: st GF2E_valid_def gen_GF2_32_eq)
  have "lifting_lut s' ! (2 ^ b + idx)
      = lifting_lut s' ! idx XOR GF2E_power (statics s') (field_generator (lambda inst)) b"
    using assms(1,3,4,5) by (rule lifting_table_structure(3))
  then have "unat (lifting_lut s' ! (2 ^ b + idx))
      = unat (lifting_lut s' ! idx) XOR unat (GF2E_power (statics s') gen_GF2_32 b)"
    by (simp add: assms(2) field_generator_def unsigned_xor_eq)
  also have "unat (GF2E_power (statics s') gen_GF2_32 b)
      = spec_generator_power (field_modulus 4) (unat gen_GF2_32) b"
    using c g by (rule GF2E_power_is_field_power)
  finally show ?thesis
    by (simp add: field_modulus_def)
qed

section \<open>The root polynomial for \<open>lambda = 4\<close>\<close>

text \<open>
  For \<open>lambda = 4\<close> and valid roots, \<open>build_from_roots\<close> returns the coefficients of the
  monic product of the factors \<open>X - r\<close>: one more than there are roots, the last one 1, and
  Horner evaluation gives zero at each root.
\<close>

lemma build_from_roots_correct:
  assumes "exact_config lam st"
    and "roots \<noteq> []"
    and "\<forall>r\<in>set roots. GF2E_valid st r"
  shows "build_from_roots st roots = product_of_linear_factors st roots
       \<and> length (build_from_roots st roots) = length roots + 1
       \<and> last (build_from_roots st roots) = 1
       \<and> (\<forall>r\<in>set roots. field_eval st (build_from_roots st roots) r = 0)"
proof -
  have eq: "build_from_roots st roots = product_of_linear_factors st roots"
    using assms(1,3) by (rule build_from_roots_eq_product)
  have "field_eval st (product_of_linear_factors st roots) r = 0" if "r \<in> set roots" for r
  proof -
    have "GF2E_valid st r"
      using assms(3) that by simp
    with assms(1) have "field_eval st (product_of_linear_factors st roots) r
        = fold (\<lambda>s acc. GF2E_mul st acc (r XOR s)) roots 1"
      using assms(3) by (rule field_eval_product)
    also have "\<dots> = 0"
      using that by (rule fold_mul_root)
    finally show ?thesis .
  qed
  then show ?thesis
    by (simp add: eq)
qed

section \<open>The claims\<close>

text \<open>
  C1. The claim: for \<open>lambda\<close> 4, 5 and 6 and all valid \<open>a\<close> and \<open>b\<close>, the product \<open>a * b\<close> is
  the remainder of the carry-less product modulo the polynomial of the field, and has no
  bit at or above position \<open>8 * byte_size\<close>. The code at \<open>lambda = 5\<close>, on the valid elements
  \<open>0x1000000\<close> and \<open>0x8000000000\<close>: the remainder is \<open>0x1C800000\<close> and the product is
  \<open>0xB800000\<close>. At \<open>lambda = 6\<close>, on \<open>0x800000010000\<close> and \<open>0x800000000000\<close>: the remainder is
  \<open>0x40000016811F\<close> and the product is \<open>0xB0000000D811F\<close>, which is not below \<open>2 ^ 48\<close>.
  (Bit 63 of both carry-less products is set; \<open>GF2E_mul_if_sign_clear\<close> is the claim where it
  is clear, and for \<open>lambda = 4\<close>.)
\<close>

theorem C1_multiply_misses_remainder:
  "active_config 5 \<lparr>reduce = Reduce_GF2_40, byte_size = 5\<rparr>
   \<and> GF2E_valid \<lparr>reduce = Reduce_GF2_40, byte_size = 5\<rparr> 0x1000000
   \<and> GF2E_valid \<lparr>reduce = Reduce_GF2_40, byte_size = 5\<rparr> 0x8000000000
   \<and> GF2E_mul \<lparr>reduce = Reduce_GF2_40, byte_size = 5\<rparr> 0x1000000 0x8000000000 = 0xB800000
   \<and> gf2_mod (clmul_nat (unat (0x1000000 :: GF2E)) (unat (0x8000000000 :: GF2E)))
         (field_modulus 5) = 0x1C800000
   \<and> active_config 6 \<lparr>reduce = Reduce_GF2_48, byte_size = 6\<rparr>
   \<and> GF2E_valid \<lparr>reduce = Reduce_GF2_48, byte_size = 6\<rparr> 0x800000010000
   \<and> GF2E_valid \<lparr>reduce = Reduce_GF2_48, byte_size = 6\<rparr> 0x800000000000
   \<and> GF2E_mul \<lparr>reduce = Reduce_GF2_48, byte_size = 6\<rparr> 0x800000010000 0x800000000000
       = 0xB0000000D811F
   \<and> gf2_mod (clmul_nat (unat (0x800000010000 :: GF2E)) (unat (0x800000000000 :: GF2E)))
         (field_modulus 6) = 0x40000016811F
   \<and> 2 ^ (8 * 6) \<le> unat (0xB0000000D811F :: GF2E)"
proof -
  have c: "active_config 5 \<lparr>reduce = Reduce_GF2_40, byte_size = 5\<rparr>"
    "active_config 6 \<lparr>reduce = Reduce_GF2_48, byte_size = 6\<rparr>"
    by (simp_all add: active_config_def)
  have v: "GF2E_valid \<lparr>reduce = Reduce_GF2_40, byte_size = 5\<rparr> 0x1000000"
    "GF2E_valid \<lparr>reduce = Reduce_GF2_40, byte_size = 5\<rparr> 0x8000000000"
    "GF2E_valid \<lparr>reduce = Reduce_GF2_48, byte_size = 6\<rparr> 0x800000010000"
    "GF2E_valid \<lparr>reduce = Reduce_GF2_48, byte_size = 6\<rparr> 0x800000000000"
    by (simp_all add: GF2E_valid_def)
  have m5: "GF2E_mul \<lparr>reduce = Reduce_GF2_40, byte_size = 5\<rparr> 0x1000000 0x8000000000 = 0xB800000"
    by (simp add: GF2E_mul_eval)
  have m6: "GF2E_mul \<lparr>reduce = Reduce_GF2_48, byte_size = 6\<rparr> 0x800000010000 0x800000000000
      = 0xB0000000D811F"
    by (simp add: GF2E_mul_eval)
  have "gf2_mod (clmul_nat 0x1000000 0x8000000000) P40 = 0x1C800000"
    by (rule gf2_mod_P40 [where q = "0x800000"]) (simp_all add: clmul_nat_numeral P40_def)
  then have r5: "gf2_mod (clmul_nat (unat (0x1000000 :: GF2E)) (unat (0x8000000000 :: GF2E)))
      (field_modulus 5) = 0x1C800000"
    by (simp add: field_modulus_def)
  have "gf2_mod (clmul_nat 0x800000010000 0x800000000000) P48 = 0x40000016811F"
    by (rule gf2_mod_P48 [where q = "0x40000000800B"]) (simp_all add: clmul_nat_numeral P48_def)
  then have r6: "gf2_mod (clmul_nat (unat (0x800000010000 :: GF2E)) (unat (0x800000000000 :: GF2E)))
      (field_modulus 6) = 0x40000016811F"
    by (simp add: field_modulus_def)
  have big: "2 ^ (8 * 6) \<le> unat (0xB0000000D811F :: GF2E)"
    by simp
  from c v m5 r5 m6 r6 big show ?thesis
    by blast
qed

text \<open>
  C2. The claim: \<open>dot_product\<close>, which reduces the XOR of the unreduced products once,
  equals the sum of the products each reduced by the field multiplication. The code at
  \<open>lambda = 5\<close>, on \<open>u = [0x8000000000, 0x8000000000]\<close> and \<open>v = [0x1000000, 0x2000000]\<close>, all
  valid: \<open>dot_product\<close> returns \<open>0xB800000\<close>, and the two products, \<open>0xB800000\<close> and
  \<open>0x39000000\<close>, add up to \<open>0x32800000\<close>. (For \<open>lambda = 4\<close> the two agree on all inputs:
  \<open>dot_product_eq_eager\<close>.)
\<close>

theorem C2_dot_product_lazy_differs:
  "dot_product \<lparr>reduce = Reduce_GF2_40, byte_size = 5\<rparr>
      [0x8000000000, 0x8000000000] [0x1000000, 0x2000000] = Inr 0xB800000
   \<and> eager_dot_product \<lparr>reduce = Reduce_GF2_40, byte_size = 5\<rparr>
      [0x8000000000, 0x8000000000] [0x1000000, 0x2000000] = 0x32800000
   \<and> GF2E_mul \<lparr>reduce = Reduce_GF2_40, byte_size = 5\<rparr> 0x8000000000 0x1000000 = 0xB800000
   \<and> GF2E_mul \<lparr>reduce = Reduce_GF2_40, byte_size = 5\<rparr> 0x8000000000 0x2000000 = 0x39000000
   \<and> GF2E_valid \<lparr>reduce = Reduce_GF2_40, byte_size = 5\<rparr> 0x8000000000
   \<and> GF2E_valid \<lparr>reduce = Reduce_GF2_40, byte_size = 5\<rparr> 0x1000000
   \<and> GF2E_valid \<lparr>reduce = Reduce_GF2_40, byte_size = 5\<rparr> 0x2000000"
proof -
  have m1: "GF2E_mul \<lparr>reduce = Reduce_GF2_40, byte_size = 5\<rparr> 0x8000000000 0x1000000 = 0xB800000"
    by (simp add: GF2E_mul_eval)
  have m2: "GF2E_mul \<lparr>reduce = Reduce_GF2_40, byte_size = 5\<rparr> 0x8000000000 0x2000000 = 0x39000000"
    by (simp add: GF2E_mul_eval)
  have lazy: "dot_product \<lparr>reduce = Reduce_GF2_40, byte_size = 5\<rparr>
      [0x8000000000, 0x8000000000] [0x1000000, 0x2000000] = Inr 0xB800000"
    by (simp add: dot_product_def GF2E_mul_eval)
  have eager: "eager_dot_product \<lparr>reduce = Reduce_GF2_40, byte_size = 5\<rparr>
      [0x8000000000, 0x8000000000] [0x1000000, 0x2000000] = 0x32800000"
    by (simp add: eager_dot_product_def GF2E_add_def m1 m2)
  have v: "GF2E_valid \<lparr>reduce = Reduce_GF2_40, byte_size = 5\<rparr> 0x8000000000"
    "GF2E_valid \<lparr>reduce = Reduce_GF2_40, byte_size = 5\<rparr> 0x1000000"
    "GF2E_valid \<lparr>reduce = Reduce_GF2_40, byte_size = 5\<rparr> 0x2000000"
    by (simp_all add: GF2E_valid_def)
  from lazy eager m1 m2 v show ?thesis
    by blast
qed

text \<open>
  C3. The claim: for distinct x-values and as many y-values, the polynomial interpolated
  from the precomputed Lagrange polynomials evaluates to the \<open>k\<close>-th y-value at the \<open>k\<close>-th
  x-value. The code at \<open>lambda = 5\<close>, on the x-values \<open>[1, 2]\<close> and the y-values
  \<open>[1, 0x4000000000]\<close>, all valid: both denominators are \<open>3\<close>, whose inverse in the field is
  \<open>0xFFFFFFFFE8\<close> (the product of the two is 1, as a remainder and as the code multiplies);
  the polynomial returned is \<open>[0xFFFFFFFFFE, 0xFFFFFFFFFF]\<close>, which evaluates to \<open>1\<close> at \<open>1\<close>
  and to \<open>0x39\<close> at \<open>2\<close>, not to \<open>0x4000000000\<close>. (For \<open>lambda = 4\<close> the claim holds:
  \<open>interpolation_at_points\<close>, \<open>interpolation_with_field_inverse\<close>.)
\<close>

theorem C3_interpolation_misses_value:
  "precompute_lagrange_polynomials \<lparr>reduce = Reduce_GF2_40, byte_size = 5\<rparr>
      (\<lambda>denominator. 0xFFFFFFFFE8) [1, 2]
     = [0xFFFFFFFFE9, 0xFFFFFFFFE8] # [0xFFFFFFFFE8, 0xFFFFFFFFE8] # []
   \<and> interpolate_with_precomputation \<lparr>reduce = Reduce_GF2_40, byte_size = 5\<rparr>
      ([0xFFFFFFFFE9, 0xFFFFFFFFE8] # [0xFFFFFFFFE8, 0xFFFFFFFFE8] # []) [1, 0x4000000000]
     = Inr [0xFFFFFFFFFE, 0xFFFFFFFFFF]
   \<and> field_eval \<lparr>reduce = Reduce_GF2_40, byte_size = 5\<rparr> [0xFFFFFFFFFE, 0xFFFFFFFFFF] 1 = 1
   \<and> field_eval \<lparr>reduce = Reduce_GF2_40, byte_size = 5\<rparr> [0xFFFFFFFFFE, 0xFFFFFFFFFF] 2 = 0x39
   \<and> fst (lagrange_inner \<lparr>reduce = Reduce_GF2_40, byte_size = 5\<rparr> [1, 2] 0) = 3
   \<and> fst (lagrange_inner \<lparr>reduce = Reduce_GF2_40, byte_size = 5\<rparr> [1, 2] 1) = 3
   \<and> GF2E_mul \<lparr>reduce = Reduce_GF2_40, byte_size = 5\<rparr> 3 0xFFFFFFFFE8 = 1
   \<and> gf2_mod (clmul_nat (unat (3 :: GF2E)) (unat (0xFFFFFFFFE8 :: GF2E))) (field_modulus 5) = 1
   \<and> distinct [1, 2 :: GF2E]
   \<and> GF2E_valid \<lparr>reduce = Reduce_GF2_40, byte_size = 5\<rparr> 1
   \<and> GF2E_valid \<lparr>reduce = Reduce_GF2_40, byte_size = 5\<rparr> 2
   \<and> GF2E_valid \<lparr>reduce = Reduce_GF2_40, byte_size = 5\<rparr> 0x4000000000
   \<and> GF2E_valid \<lparr>reduce = Reduce_GF2_40, byte_size = 5\<rparr> 0xFFFFFFFFE8"
proof -
  have pre: "precompute_lagrange_polynomials \<lparr>reduce = Reduce_GF2_40, byte_size = 5\<rparr>
      (\<lambda>denominator. 0xFFFFFFFFE8) [1, 2]
     = [0xFFFFFFFFE9, 0xFFFFFFFFE8] # [0xFFFFFFFFE8, 0xFFFFFFFFE8] # []"
    by (simp add: precompute_lagrange_polynomials_def lagrange_inner_def build_from_roots_def
      bfr_outer.simps [of _ "Suc 0"] vec_scale_def GF2E_sub_def GF2E_mul_eval)
  have int: "interpolate_with_precomputation \<lparr>reduce = Reduce_GF2_40, byte_size = 5\<rparr>
      ([0xFFFFFFFFE9, 0xFFFFFFFFE8] # [0xFFFFFFFFE8, 0xFFFFFFFFE8] # []) [1, 0x4000000000]
     = Inr [0xFFFFFFFFFE, 0xFFFFFFFFFF]"
    by (simp add: interpolate_with_precomputation_def interp_loop.simps [of _ _ "[1, 0x4000000000]"]
      vec_add_assign_def vec_scale_def GF2E_add_def GF2E_mul_eval)
  have e1: "field_eval \<lparr>reduce = Reduce_GF2_40, byte_size = 5\<rparr> [0xFFFFFFFFFE, 0xFFFFFFFFFF] 1 = 1"
    by (simp add: field_eval_def GF2E_add_def GF2E_mul_eval)
  have e2: "field_eval \<lparr>reduce = Reduce_GF2_40, byte_size = 5\<rparr> [0xFFFFFFFFFE, 0xFFFFFFFFFF] 2 = 0x39"
    by (simp add: field_eval_def GF2E_add_def GF2E_mul_eval)
  have d: "fst (lagrange_inner \<lparr>reduce = Reduce_GF2_40, byte_size = 5\<rparr> [1, 2] 0) = 3"
    "fst (lagrange_inner \<lparr>reduce = Reduce_GF2_40, byte_size = 5\<rparr> [1, 2] 1) = 3"
    by (simp_all add: lagrange_inner_def GF2E_sub_def GF2E_mul_eval)
  have i: "GF2E_mul \<lparr>reduce = Reduce_GF2_40, byte_size = 5\<rparr> 3 0xFFFFFFFFE8 = 1"
    by (simp add: GF2E_mul_eval)
  have "gf2_mod (clmul_nat 3 0xFFFFFFFFE8) P40 = 1"
    by (rule gf2_mod_P40 [where q = 1]) (simp_all add: clmul_nat_numeral P40_def)
  then have t: "gf2_mod (clmul_nat (unat (3 :: GF2E)) (unat (0xFFFFFFFFE8 :: GF2E)))
      (field_modulus 5) = 1"
    by (simp add: field_modulus_def)
  have x: "distinct [1, 2 :: GF2E]"
    by simp
  have v: "GF2E_valid \<lparr>reduce = Reduce_GF2_40, byte_size = 5\<rparr> 1"
    "GF2E_valid \<lparr>reduce = Reduce_GF2_40, byte_size = 5\<rparr> 2"
    "GF2E_valid \<lparr>reduce = Reduce_GF2_40, byte_size = 5\<rparr> 0x4000000000"
    "GF2E_valid \<lparr>reduce = Reduce_GF2_40, byte_size = 5\<rparr> 0xFFFFFFFFE8"
    by (simp_all add: GF2E_valid_def)
  from pre int e1 e2 d i t x v show ?thesis
    by blast
qed

theorem C3_interpolation_misses_value_witness:
  "\<exists>p. interpolate_with_precomputation \<lparr>reduce = Reduce_GF2_40, byte_size = 5\<rparr>
          (precompute_lagrange_polynomials \<lparr>reduce = Reduce_GF2_40, byte_size = 5\<rparr>
             (\<lambda>denominator. 0xFFFFFFFFE8) [1, 2]) [1, 0x4000000000] = Inr p
        \<and> field_eval \<lparr>reduce = Reduce_GF2_40, byte_size = 5\<rparr> p ([1, 2] ! 1)
            \<noteq> [1, 0x4000000000] ! 1"
  using C3_interpolation_misses_value by simp

text \<open>
  C4. The claim: for a non-empty list of roots, \<open>build_from_roots\<close> returns the coefficients
  of the monic product of the factors \<open>X - r\<close>, which Horner evaluation sends to zero at
  each root. The code at \<open>lambda = 5\<close>, on the valid roots \<open>[2, 0x800000, 0x8000000000]\<close>:
  the polynomial returned has the constant coefficient \<open>0xB800000\<close>, the product
  \<open>(2 * 0x800000) * 0x8000000000\<close> of the code, and evaluates to \<open>0x17000000\<close> at the roots
  \<open>2\<close> and \<open>0x800000\<close>. (For \<open>lambda = 4\<close> the claim holds: \<open>build_from_roots_correct\<close>.)
\<close>

theorem C4_build_from_roots_misses_roots:
  "build_from_roots \<lparr>reduce = Reduce_GF2_40, byte_size = 5\<rparr> [2, 0x800000, 0x8000000000]
     = [0xB800000, 0xF400039, 0x8000800002, 1]
   \<and> field_eval \<lparr>reduce = Reduce_GF2_40, byte_size = 5\<rparr>
       [0xB800000, 0xF400039, 0x8000800002, 1] 2 = 0x17000000
   \<and> field_eval \<lparr>reduce = Reduce_GF2_40, byte_size = 5\<rparr>
       [0xB800000, 0xF400039, 0x8000800002, 1] 0x800000 = 0x17000000
   \<and> field_eval \<lparr>reduce = Reduce_GF2_40, byte_size = 5\<rparr>
       [0xB800000, 0xF400039, 0x8000800002, 1] 0x8000000000 = 0
   \<and> GF2E_valid \<lparr>reduce = Reduce_GF2_40, byte_size = 5\<rparr> 2
   \<and> GF2E_valid \<lparr>reduce = Reduce_GF2_40, byte_size = 5\<rparr> 0x800000
   \<and> GF2E_valid \<lparr>reduce = Reduce_GF2_40, byte_size = 5\<rparr> 0x8000000000"
proof -
  have b: "build_from_roots \<lparr>reduce = Reduce_GF2_40, byte_size = 5\<rparr> [2, 0x800000, 0x8000000000]
     = [0xB800000, 0xF400039, 0x8000800002, 1]"
    by (simp add: build_from_roots_def bfr_outer.simps [of _ "Suc (Suc (Suc 0))"] GF2E_add_def
      GF2E_mul_eval)
  have e1: "field_eval \<lparr>reduce = Reduce_GF2_40, byte_size = 5\<rparr>
       [0xB800000, 0xF400039, 0x8000800002, 1] 2 = 0x17000000"
    by (simp add: field_eval_def GF2E_add_def GF2E_mul_eval)
  have e2: "field_eval \<lparr>reduce = Reduce_GF2_40, byte_size = 5\<rparr>
       [0xB800000, 0xF400039, 0x8000800002, 1] 0x800000 = 0x17000000"
    by (simp add: field_eval_def GF2E_add_def GF2E_mul_eval)
  have e3: "field_eval \<lparr>reduce = Reduce_GF2_40, byte_size = 5\<rparr>
       [0xB800000, 0xF400039, 0x8000800002, 1] 0x8000000000 = 0"
    by (simp add: field_eval_def GF2E_add_def GF2E_mul_eval)
  have v: "GF2E_valid \<lparr>reduce = Reduce_GF2_40, byte_size = 5\<rparr> 2"
    "GF2E_valid \<lparr>reduce = Reduce_GF2_40, byte_size = 5\<rparr> 0x800000"
    "GF2E_valid \<lparr>reduce = Reduce_GF2_40, byte_size = 5\<rparr> 0x8000000000"
    by (simp_all add: GF2E_valid_def)
  from b e1 e2 e3 v show ?thesis
    by blast
qed

text \<open>
  C5. The claim: after configuration for \<open>lambda\<close> 4, 5 or 6 the table satisfies
  \<open>lift (2\<^sup>b + idx) = lift idx + generator\<^sup>b\<close> for \<open>b\<close> from 1 to 7, with \<open>lift 0 = 0\<close> and
  \<open>lift 1 = 1\<close>, and lifting is additive. The code configured for \<open>lambda = 5\<close> (the
  instance at index 3) from the initial state, at \<open>b = 3\<close> and \<open>idx = 0\<close>: \<open>lift 0\<close> is \<open>0\<close>
  and \<open>lift 8\<close> is \<open>0x7D087F48A6\<close>, while the third power of the generator \<open>0xCA748254\<close> in
  the field is \<open>0x7C337F48A6\<close>. (The structure of the table and the additivity hold under
  every routine, \<open>lifting_table_structure\<close>, and for \<open>lambda = 4\<close> the table holds the powers
  in the field, \<open>lifting_table_lambda_4\<close>.)
\<close>

theorem C5_lifting_table_misses_power:
  "lambda (instances ! 3) = 5
   \<and> init_extension_field (instances ! 3) initial_state
       = Inr \<lparr>statics = \<lparr>reduce = Reduce_GF2_40, byte_size = 5\<rparr>,
              lifting_lut = init_lifting_lut \<lparr>reduce = Reduce_GF2_40, byte_size = 5\<rparr> gen_GF2_40
                (replicate 256 0)\<rparr>
   \<and> lift_uint8_t (init_lifting_lut \<lparr>reduce = Reduce_GF2_40, byte_size = 5\<rparr> gen_GF2_40
         (replicate 256 0)) 0 = 0
   \<and> lift_uint8_t (init_lifting_lut \<lparr>reduce = Reduce_GF2_40, byte_size = 5\<rparr> gen_GF2_40
         (replicate 256 0)) 8 = 0x7D087F48A6
   \<and> unat gen_GF2_40 = 0xCA748254
   \<and> spec_generator_power (field_modulus 5) 0xCA748254 3 = 0x7C337F48A6"
proof -
  define T where "T = init_lifting_lut \<lparr>reduce = Reduce_GF2_40, byte_size = 5\<rparr> gen_GF2_40
    (replicate 256 0)"
  have l: "lambda (instances ! 3) = 5"
    by (simp add: instances_def mk_instance_def)
  then have run: "init_extension_field (instances ! 3) initial_state
      = Inr \<lparr>statics = \<lparr>reduce = Reduce_GF2_40, byte_size = 5\<rparr>, lifting_lut = T\<rparr>"
    by (simp add: init_extension_field_def Let_def initial_state_def T_def)
  have len: "length (replicate 256 (0 :: GF2E)) = 256"
    by simp
  have T0: "T ! 0 = 0"
    unfolding T_def using len by (rule init_lifting_lut_spec(1))
  have "T ! (2 ^ 3 + 0) = T ! 0 XOR GF2E_power \<lparr>reduce = Reduce_GF2_40, byte_size = 5\<rparr> gen_GF2_40 3"
    unfolding T_def using len by (rule init_lifting_lut_spec(3)) simp_all
  moreover have "GF2E_power \<lparr>reduce = Reduce_GF2_40, byte_size = 5\<rparr> gen_GF2_40 3 = 0x7D087F48A6"
    using generator_powers_40 by simp
  ultimately have T8: "T ! 8 = 0x7D087F48A6"
    using T0 by simp
  have lift: "lift_uint8_t T 0 = 0" "lift_uint8_t T 8 = 0x7D087F48A6"
    using T0 T8 by (simp_all add: lift_uint8_t_def)
  have gen: "unat gen_GF2_40 = 0xCA748254"
    by (simp add: gen_GF2_40_eq)
  define g :: nat where "g = 0xCA748254"
  have e: "spec_generator_power P40 g 3
      = gf2_mod (clmul_nat (gf2_mod (clmul_nat (gf2_mod (clmul_nat 1 g) P40) g) P40) g) P40"
    by (simp add: eval_nat_numeral)
  have r1: "gf2_mod (clmul_nat 1 g) P40 = g"
    by (rule gf2_mod_P40 [where q = 0]) (simp_all add: g_def)
  have r2: "gf2_mod (clmul_nat g g) P40 = 0x104DDAB65D"
    by (rule gf2_mod_P40 [where q = "0x504415"]) (simp_all add: g_def clmul_nat_numeral P40_def)
  have r3: "gf2_mod (clmul_nat 0x104DDAB65D g) P40 = 0x7C337F48A6"
    by (rule gf2_mod_P40 [where q = "0xC9039B2"]) (simp_all add: g_def clmul_nat_numeral P40_def)
  have "spec_generator_power P40 g 3 = 0x7C337F48A6"
    unfolding e r1 r2 r3 by (rule refl)
  then have pw: "spec_generator_power (field_modulus 5) 0xCA748254 3 = 0x7C337F48A6"
    by (simp add: field_modulus_def g_def)
  from l run lift gen pw show ?thesis
    unfolding T_def by blast
qed

text \<open>
  C6. \<open>inverse\<close> returns its argument unchanged, for every field element; it is not the
  multiplicative inverse: under every configuration the element 2 (the polynomial \<open>x\<close>)
  has \<open>2 * 2 \<noteq> 2\<close> and \<open>inverse 2 * 2 \<noteq> 1\<close>.
\<close>

theorem C6_inverse_is_identity:
  "GF2E_inverse a = a
   \<and> GF2E_mul st 2 2 \<noteq> 2
   \<and> GF2E_mul st (GF2E_inverse 2) 2 \<noteq> 1"
proof -
  have "GF2E_mul st 2 2 = 4"
    by (simp add: GF2E_mul_two_two)
  then show ?thesis
    by (simp add: GF2E_inverse_def)
qed

theorem C6_inverse_witness:
  "GF2E_inverse 5 = 5
   \<and> GF2E_mul initial_static 2 2 \<noteq> 2
   \<and> GF2E_mul initial_static (GF2E_inverse 2) 2 \<noteq> 1"
  using C6_inverse_is_identity [of 5 initial_static] by simp

text \<open>
  C7. \<open>init_extension_field\<close> fails with \<open>UnsupportedLambda\<close> for every \<open>lambda\<close> other
  than 4, 5 and 6. For these three it succeeds: \<open>byte_size\<close> becomes \<open>lambda\<close>, the reduction
  routine is the one of that \<open>lambda\<close>, and the table is rebuilt from the generator of
  that \<open>lambda\<close>, keeping its length. Rebuilt, on the 256 entries of the array, means:
  entry 0 is 0, and for \<open>b\<close> from 0 to 7 and \<open>idx < 2\<^sup>b\<close> entry \<open>2\<^sup>b + idx\<close> is entry \<open>idx\<close>
  plus the \<open>b\<close>-th of eight values fixed by \<open>lambda\<close>, the values the code computes for
  \<^verbatim>\<open>pow\<close>. This determines all 256 entries, whatever the table held before.
\<close>

theorem C7_init_extension_field:
  "(lambda inst \<notin> {4, 5, 6} \<longrightarrow> init_extension_field inst s = Inl UnsupportedLambda)
   \<and> (lambda inst \<in> {4, 5, 6} \<longrightarrow>
       (\<exists>s'. init_extension_field inst s = Inr s'
          \<and> byte_size (statics s') = lambda inst
          \<and> reduce (statics s')
              = (if lambda inst = 4 then Reduce_GF2_32
                 else if lambda inst = 5 then Reduce_GF2_40 else Reduce_GF2_48)
          \<and> active_config (lambda inst) (statics s')
          \<and> lifting_lut s'
              = init_lifting_lut (statics s')
                  (if lambda inst = 4 then gen_GF2_32
                   else if lambda inst = 5 then gen_GF2_40 else gen_GF2_48)
                  (lifting_lut s)
          \<and> length (lifting_lut s') = length (lifting_lut s)
          \<and> (length (lifting_lut s) = 256 \<longrightarrow>
               lifting_lut s' ! 0 = 0
               \<and> (\<forall>b idx. b < 8 \<and> idx < 2 ^ b \<longrightarrow>
                    lifting_lut s' ! (2 ^ b + idx)
                      = lifting_lut s' ! idx XOR
                        (if lambda inst = 4 then
                           [1, 0x40A46AFA, 0xC4652DFC, 0x7ECDA763,
                            0x9C8BAD52, 0x3EA34653, 0x49AAA6A, 0x4C7D73FB]
                         else if lambda inst = 5 then
                           [1, 0xCA748254, 0x104DDAB65D, 0x7D087F48A6,
                            0xD58F0EEC93, 0x975CCF3672, 0xBF971BCAD2, 0x7EC56C46C]
                         else
                           [1, 0x293EF1396C8C, 0xBA2C847D497D, 0x2D9DBB0187BF,
                            0x69A636A2569E, 0x466328D4FEBF, 0xD62A54CA8933, 0x32B634BC2F362])
                        ! b))))"
proof (intro conjI impI)
  assume "lambda inst \<notin> {4, 5, 6}"
  then show "init_extension_field inst s = Inl UnsupportedLambda"
    by (simp add: init_extension_field_def)
next
  assume "lambda inst \<in> {4, 5, 6}"
  then consider (a) "lambda inst = 4" | (b) "lambda inst = 5" | (c) "lambda inst = 6"
    by auto
  then show "\<exists>s'. init_extension_field inst s = Inr s'
          \<and> byte_size (statics s') = lambda inst
          \<and> reduce (statics s')
              = (if lambda inst = 4 then Reduce_GF2_32
                 else if lambda inst = 5 then Reduce_GF2_40 else Reduce_GF2_48)
          \<and> active_config (lambda inst) (statics s')
          \<and> lifting_lut s'
              = init_lifting_lut (statics s')
                  (if lambda inst = 4 then gen_GF2_32
                   else if lambda inst = 5 then gen_GF2_40 else gen_GF2_48)
                  (lifting_lut s)
          \<and> length (lifting_lut s') = length (lifting_lut s)
          \<and> (length (lifting_lut s) = 256 \<longrightarrow>
               lifting_lut s' ! 0 = 0
               \<and> (\<forall>b idx. b < 8 \<and> idx < 2 ^ b \<longrightarrow>
                    lifting_lut s' ! (2 ^ b + idx)
                      = lifting_lut s' ! idx XOR
                        (if lambda inst = 4 then
                           [1, 0x40A46AFA, 0xC4652DFC, 0x7ECDA763,
                            0x9C8BAD52, 0x3EA34653, 0x49AAA6A, 0x4C7D73FB]
                         else if lambda inst = 5 then
                           [1, 0xCA748254, 0x104DDAB65D, 0x7D087F48A6,
                            0xD58F0EEC93, 0x975CCF3672, 0xBF971BCAD2, 0x7EC56C46C]
                         else
                           [1, 0x293EF1396C8C, 0xBA2C847D497D, 0x2D9DBB0187BF,
                            0x69A636A2569E, 0x466328D4FEBF, 0xD62A54CA8933, 0x32B634BC2F362])
                        ! b))"
  proof cases
    case a
    define T where "T = init_lifting_lut \<lparr>reduce = Reduce_GF2_32, byte_size = 4\<rparr> gen_GF2_32
      (lifting_lut s)"
    have run: "init_extension_field inst s
        = Inr \<lparr>statics = \<lparr>reduce = Reduce_GF2_32, byte_size = 4\<rparr>, lifting_lut = T\<rparr>"
      using a by (simp add: init_extension_field_def Let_def T_def)
    have len: "length T = length (lifting_lut s)"
      by (simp add: T_def)
    have tab: "T ! 0 = 0 \<and> (\<forall>b idx. b < 8 \<and> idx < 2 ^ b \<longrightarrow>
        T ! (2 ^ b + idx) = T ! idx XOR
          [1, 0x40A46AFA, 0xC4652DFC, 0x7ECDA763, 0x9C8BAD52, 0x3EA34653, 0x49AAA6A, 0x4C7D73FB]
          ! b)"
      if "length (lifting_lut s) = 256"
      unfolding T_def using rebuilt_table [OF that generator_powers_32] by blast
    show ?thesis
      using run len tab by (simp add: a active_config_def T_def)
  next
    case b
    define T where "T = init_lifting_lut \<lparr>reduce = Reduce_GF2_40, byte_size = 5\<rparr> gen_GF2_40
      (lifting_lut s)"
    have run: "init_extension_field inst s
        = Inr \<lparr>statics = \<lparr>reduce = Reduce_GF2_40, byte_size = 5\<rparr>, lifting_lut = T\<rparr>"
      using b by (simp add: init_extension_field_def Let_def T_def)
    have len: "length T = length (lifting_lut s)"
      by (simp add: T_def)
    have tab: "T ! 0 = 0 \<and> (\<forall>b idx. b < 8 \<and> idx < 2 ^ b \<longrightarrow>
        T ! (2 ^ b + idx) = T ! idx XOR
          [1, 0xCA748254, 0x104DDAB65D, 0x7D087F48A6, 0xD58F0EEC93, 0x975CCF3672, 0xBF971BCAD2,
           0x7EC56C46C] ! b)"
      if "length (lifting_lut s) = 256"
      unfolding T_def using rebuilt_table [OF that generator_powers_40] by blast
    show ?thesis
      using run len tab by (simp add: b active_config_def T_def)
  next
    case c
    define T where "T = init_lifting_lut \<lparr>reduce = Reduce_GF2_48, byte_size = 6\<rparr> gen_GF2_48
      (lifting_lut s)"
    have run: "init_extension_field inst s
        = Inr \<lparr>statics = \<lparr>reduce = Reduce_GF2_48, byte_size = 6\<rparr>, lifting_lut = T\<rparr>"
      using c by (simp add: init_extension_field_def Let_def T_def)
    have len: "length T = length (lifting_lut s)"
      by (simp add: T_def)
    have tab: "T ! 0 = 0 \<and> (\<forall>b idx. b < 8 \<and> idx < 2 ^ b \<longrightarrow>
        T ! (2 ^ b + idx) = T ! idx XOR
          [1, 0x293EF1396C8C, 0xBA2C847D497D, 0x2D9DBB0187BF, 0x69A636A2569E, 0x466328D4FEBF,
           0xD62A54CA8933, 0x32B634BC2F362] ! b)"
      if "length (lifting_lut s) = 256"
      unfolding T_def using rebuilt_table [OF that generator_powers_48] by blast
    show ?thesis
      using run len tab by (simp add: c active_config_def T_def)
  qed
qed

theorem C7_init_extension_field_witness:
  "init_extension_field (instances ! 0) initial_state = Inl UnsupportedLambda
   \<and> (\<exists>s'. init_extension_field (instances ! 3) initial_state = Inr s'
          \<and> byte_size (statics s') = 5
          \<and> reduce (statics s') = Reduce_GF2_40
          \<and> length (lifting_lut s') = 256
          \<and> lifting_lut s' ! 0 = 0
          \<and> lifting_lut s' ! 1 = 1
          \<and> lifting_lut s' ! 8 = 0x7D087F48A6
          \<and> lifting_lut s' ! 9 = 0x7D087F48A7)"
proof -
  have l0: "lambda (instances ! 0) \<notin> {4, 5, 6}"
    by (simp add: instances_def mk_instance_def)
  have l3: "lambda (instances ! 3) = 5"
    by (simp add: instances_def mk_instance_def)
  then have l3': "lambda (instances ! 3) \<in> {4, 5, 6}"
    by simp
  have len: "length (lifting_lut initial_state) = 256"
    by (simp add: initial_state_def)
  have fail: "init_extension_field (instances ! 0) initial_state = Inl UnsupportedLambda"
    using C7_init_extension_field [of "instances ! 0" initial_state] l0 by blast
  from C7_init_extension_field [of "instances ! 3" initial_state] l3'
  obtain s' where run: "init_extension_field (instances ! 3) initial_state = Inr s'"
    and bs: "byte_size (statics s') = lambda (instances ! 3)"
    and rd: "reduce (statics s')
        = (if lambda (instances ! 3) = 4 then Reduce_GF2_32
           else if lambda (instances ! 3) = 5 then Reduce_GF2_40 else Reduce_GF2_48)"
    and ln: "length (lifting_lut s') = length (lifting_lut initial_state)"
    and tab: "length (lifting_lut initial_state) = 256 \<longrightarrow>
               lifting_lut s' ! 0 = 0
               \<and> (\<forall>b idx. b < 8 \<and> idx < 2 ^ b \<longrightarrow>
                    lifting_lut s' ! (2 ^ b + idx)
                      = lifting_lut s' ! idx XOR
                        (if lambda (instances ! 3) = 4 then
                           [1, 0x40A46AFA, 0xC4652DFC, 0x7ECDA763,
                            0x9C8BAD52, 0x3EA34653, 0x49AAA6A, 0x4C7D73FB]
                         else if lambda (instances ! 3) = 5 then
                           [1, 0xCA748254, 0x104DDAB65D, 0x7D087F48A6,
                            0xD58F0EEC93, 0x975CCF3672, 0xBF971BCAD2, 0x7EC56C46C]
                         else
                           [1, 0x293EF1396C8C, 0xBA2C847D497D, 0x2D9DBB0187BF,
                            0x69A636A2569E, 0x466328D4FEBF, 0xD62A54CA8933, 0x32B634BC2F362])
                        ! b)"
    by blast
  from tab len have t0: "lifting_lut s' ! 0 = 0"
    and t: "\<And>b idx. b < 8 \<Longrightarrow> idx < 2 ^ b \<Longrightarrow>
        lifting_lut s' ! (2 ^ b + idx)
          = lifting_lut s' ! idx XOR
              [1, 0xCA748254, 0x104DDAB65D, 0x7D087F48A6,
               0xD58F0EEC93, 0x975CCF3672, 0xBF971BCAD2, 0x7EC56C46C] ! b"
    by (simp_all add: l3)
  have t1: "lifting_lut s' ! 1 = 1"
    using t [of 0 0] t0 by simp
  have t8: "lifting_lut s' ! 8 = 0x7D087F48A6"
    using t [of 3 0] t0 by simp
  have t9: "lifting_lut s' ! 9 = 0x7D087F48A7"
    using t [of 3 1] t1 by simp
  from bs rd ln have "byte_size (statics s') = 5" "reduce (statics s') = Reduce_GF2_40"
    "length (lifting_lut s') = 256"
    by (simp_all add: l3 len)
  with fail run t0 t1 t8 t9 show ?thesis
    by blast
qed

text \<open>
  C8, as the claim states its last part: interpolation succeeds whenever the basis set
  and the y-values have equal non-empty lengths. It fails on two basis polynomials of
  different lengths.
\<close>

theorem C8_interpolate_counterexample:
  "length ([1] # [1, 2] # []) = length [1, 1 :: GF2E]
   \<and> [1, 1 :: GF2E] \<noteq> []
   \<and> interpolate_with_precomputation initial_static ([1] # [1, 2] # []) [1, 1]
       = Inl SizeMismatch"
  using interpolate_outcome [of "[1] # [1, 2] # []" "[1, 1]" initial_static]
  by simp

text \<open>
  C8, amended. Adding two vectors of different lengths fails with \<open>SizeMismatch\<close>, and
  with equal lengths it succeeds. Interpolation fails with \<open>SizeMismatch\<close> when the basis
  set and the y-values differ in length or either is empty; with equal non-empty lengths
  it succeeds when every basis polynomial has the length of the first, and fails with
  \<open>SizeMismatch\<close> otherwise.
\<close>

theorem C8_size_mismatch:
  "(length lhs \<noteq> length rhs \<longrightarrow>
      vec_add lhs rhs = Inl SizeMismatch \<and> vec_add_assign lhs rhs = Inl SizeMismatch)
   \<and> (length lhs = length rhs \<longrightarrow>
      (\<exists>r. vec_add lhs rhs = Inr r \<and> length r = length lhs)
      \<and> (\<exists>r. vec_add_assign lhs rhs = Inr r \<and> length r = length lhs))
   \<and> (length pre \<noteq> length ys \<or> pre = [] \<or> ys = [] \<longrightarrow>
      interpolate_with_precomputation st pre ys = Inl SizeMismatch)
   \<and> (length pre = length ys \<and> ys \<noteq> [] \<and> (\<forall>p\<in>set pre. length p = length (pre ! 0)) \<longrightarrow>
      (\<exists>r. interpolate_with_precomputation st pre ys = Inr r))
   \<and> (length pre = length ys \<and> ys \<noteq> [] \<and> \<not> (\<forall>p\<in>set pre. length p = length (pre ! 0)) \<longrightarrow>
      interpolate_with_precomputation st pre ys = Inl SizeMismatch)"
proof (intro conjI impI)
  assume "length pre \<noteq> length ys \<or> pre = [] \<or> ys = []"
  then show "interpolate_with_precomputation st pre ys = Inl SizeMismatch"
    by (rule interpolate_bad_sizes)
next
  assume a: "length pre = length ys \<and> ys \<noteq> [] \<and> (\<forall>p\<in>set pre. length p = length (pre ! 0))"
  then have "length pre = length ys" "ys \<noteq> []" "\<forall>p\<in>set pre. length p = length (pre ! 0)"
    by blast+
  then have "\<exists>r. interpolate_with_precomputation st pre ys = Inr r \<and> length r = length (pre ! 0)"
    by (rule interpolate_succeeds)
  then show "\<exists>r. interpolate_with_precomputation st pre ys = Inr r"
    by blast
next
  assume a: "length pre = length ys \<and> ys \<noteq> [] \<and> \<not> (\<forall>p\<in>set pre. length p = length (pre ! 0))"
  then have "length pre = length ys" "ys \<noteq> []" "\<not> (\<forall>p\<in>set pre. length p = length (pre ! 0))"
    by blast+
  then show "interpolate_with_precomputation st pre ys = Inl SizeMismatch"
    by (rule interpolate_ragged_fails)
next
  assume "length lhs \<noteq> length rhs"
  then show "vec_add lhs rhs = Inl SizeMismatch"
    by (simp add: vec_add_def)
next
  assume "length lhs \<noteq> length rhs"
  then show "vec_add_assign lhs rhs = Inl SizeMismatch"
    by (simp add: vec_add_assign_def)
next
  assume "length lhs = length rhs"
  then show "\<exists>r. vec_add lhs rhs = Inr r \<and> length r = length lhs"
    by (simp add: vec_add_def)
next
  assume "length lhs = length rhs"
  then show "\<exists>r. vec_add_assign lhs rhs = Inr r \<and> length r = length lhs"
    by (simp add: vec_add_assign_def)
qed

theorem C8_size_mismatch_witness:
  "vec_add [1, 2 :: GF2E] [3] = Inl SizeMismatch
   \<and> vec_add_assign [1, 2 :: GF2E] [3] = Inl SizeMismatch
   \<and> (\<exists>r. vec_add [1, 2 :: GF2E] [3, 4] = Inr r \<and> length r = length [1, 2 :: GF2E])
   \<and> interpolate_with_precomputation initial_static ([1, 2] # []) [] = Inl SizeMismatch
   \<and> interpolate_with_precomputation initial_static ([1, 2] # []) [1, 1] = Inl SizeMismatch
   \<and> (\<exists>r. interpolate_with_precomputation initial_static ([1, 2] # [3, 4] # []) [1, 1] = Inr r)
   \<and> interpolate_with_precomputation initial_static ([1, 2] # [3] # []) [1, 1] = Inl SizeMismatch"
  using C8_size_mismatch [of "[1, 2]" "[3]" "[1, 2] # []" "[]" initial_static]
        C8_size_mismatch [of "[1, 2]" "[3, 4]" "[1, 2] # []" "[1, 1]" initial_static]
        C8_size_mismatch [of "[]" "[]" "[1, 2] # [3, 4] # []" "[1, 1]" initial_static]
        C8_size_mismatch [of "[]" "[]" "[1, 2] # [3] # []" "[1, 1]" initial_static]
  by simp

text \<open>
  C9. \<open>banquet_instance_get\<close> fails with \<open>InvalidParameterSet\<close> for the reserved identifier 0,
  for everything below it and for every identifier from the maximum index on; for each
  identifier strictly between the two it returns the record of the table at that index,
  which carries that identifier.
\<close>

theorem C9_banquet_instance_get:
  "(param \<le> PARAMETER_SET_INVALID \<or> param \<ge> PARAMETER_SET_MAX_INDEX
      \<longrightarrow> banquet_instance_get param = Inl InvalidParameterSet)
   \<and> (PARAMETER_SET_INVALID < param \<and> param < PARAMETER_SET_MAX_INDEX
      \<longrightarrow> banquet_instance_get param = Inr (instances ! nat param)
          \<and> nat param < length instances
          \<and> params (instances ! nat param) = param)"
proof (intro conjI impI)
  assume "param \<le> PARAMETER_SET_INVALID \<or> param \<ge> PARAMETER_SET_MAX_INDEX"
  then show "banquet_instance_get param = Inl InvalidParameterSet"
    by (simp add: banquet_instance_get_def)
next
  assume r: "PARAMETER_SET_INVALID < param \<and> param < PARAMETER_SET_MAX_INDEX"
  then show "banquet_instance_get param = Inr (instances ! nat param)"
    by (simp add: banquet_instance_get_def)
  have "length instances = 13"
    by (simp add: instances_def)
  moreover from r have "nat param < 13"
    unfolding PARAMETER_SET_INVALID_def PARAMETER_SET_MAX_INDEX_def by linarith
  ultimately show "nat param < length instances"
    by simp
  from r have "param \<in> {1, 2, 3, 4, 5, 6, 7, 8, 9, 10, 11, 12}"
    unfolding PARAMETER_SET_INVALID_def PARAMETER_SET_MAX_INDEX_def by (simp, presburger)
  then show "params (instances ! nat param) = param"
    by (auto simp add: instances_def mk_instance_def Banquet_L1_Param1_def Banquet_L1_Param2_def
        Banquet_L1_Param3_def Banquet_L1_Param4_def Banquet_L1_Param5_def Banquet_L1_Param6_def
        Banquet_L1_Param7_def Banquet_L1_Param8_def Banquet_L1_Param9_def Banquet_L1_Param10_def
        Banquet_L3_Param1_def Banquet_L5_Param1_def)
qed

theorem C9_banquet_instance_get_witness:
  "banquet_instance_get 0 = Inl InvalidParameterSet
   \<and> banquet_instance_get 13 = Inl InvalidParameterSet
   \<and> banquet_instance_get (- 1) = Inl InvalidParameterSet
   \<and> banquet_instance_get 4
       = Inr (mk_instance AES128_PARAMS 32 16 27 64 10 20 6 Banquet_L1_Param4)
   \<and> params (instances ! nat 4) = 4"
  using C9_banquet_instance_get [of 0] C9_banquet_instance_get [of 13]
        C9_banquet_instance_get [of "- 1"] C9_banquet_instance_get [of 4]
  by (simp add: PARAMETER_SET_INVALID_def PARAMETER_SET_MAX_INDEX_def instances_def)

text \<open>
  C10. On the empty list of roots \<open>build_from_roots\<close> does not fail: it returns the single
  coefficient 1, the constant polynomial 1, which is the empty product.
\<close>

theorem C10_build_from_roots_empty:
  "build_from_roots st [] = [1]
   \<and> build_from_roots st [] = product_of_linear_factors st []"
  by (simp add: build_from_roots_def bfr_outer.simps product_of_linear_factors_def)

theorem C10_build_from_roots_empty_witness:
  "build_from_roots initial_static [] = [1]"
  using C10_build_from_roots_empty [of initial_static] by simp

end
